theory Spec2Isabelle
  imports Complex_Main
begin

section \<open>Verilog AST: identifier sanitisation (xls/codegen/vast.cc)\<close>

text \<open>
  A \<open>std::string\<close> is a sequence of bytes, and so is a HOL \<open>string\<close>.
  \<open>absl::ascii_isdigit\<close>, \<open>absl::ascii_isalpha\<close> and \<open>absl::ascii_isalnum\<close>
  classify a byte by its ASCII code; every byte above 127 is in none of the classes.
\<close>

definition ascii_isdigit :: "char \<Rightarrow> bool" where
  "ascii_isdigit c \<longleftrightarrow> (48::nat) \<le> of_char c \<and> of_char c \<le> (57::nat)"

definition ascii_isalpha :: "char \<Rightarrow> bool" where
  "ascii_isalpha c \<longleftrightarrow>
     ((65::nat) \<le> of_char c \<and> of_char c \<le> (90::nat)) \<or>
     ((97::nat) \<le> of_char c \<and> of_char c \<le> (122::nat))"

definition ascii_isalnum :: "char \<Rightarrow> bool" where
  "ascii_isalnum c \<longleftrightarrow> ascii_isalpha c \<or> ascii_isdigit c"

text \<open>
  The loop of \<open>SanitizeIdentifier\<close>:
  \<^verbatim>\<open>for (int i = 0; i < sanitized.size(); ++i)
    if (!absl::ascii_isalnum(sanitized[i])) sanitized[i] = '_';\<close>
\<close>

function sanitize_loop :: "nat \<Rightarrow> string \<Rightarrow> string" where
  "sanitize_loop i sanitized =
     (if i < length sanitized
      then sanitize_loop (Suc i)
             (if \<not> ascii_isalnum (sanitized ! i) then sanitized[i := CHR ''_''] else sanitized)
      else sanitized)"
  by pat_completeness auto
termination
  by (relation "measure (\<lambda>(i, s). length s - i)") auto

definition SanitizeIdentifier :: "string \<Rightarrow> string" where
  "SanitizeIdentifier name =
     (if name = [] then ''_''
      else sanitize_loop 0 (if ascii_isdigit (name ! 0) then ''_'' @ name else name))"

text \<open>What the loop does to one byte; used to state the result of the loop.\<close>

definition sanitize_char :: "char \<Rightarrow> char" where
  "sanitize_char c = (if \<not> ascii_isalnum c then CHR ''_'' else c)"


section \<open>Verilog AST: expressions and their emission (xls/codegen/vast.cc)\<close>

text \<open>
  The expression kinds whose \<open>Emit\<close> the development needs: literals, references to a
  defined signal, index, slice, part-select, ternary, binary infix and unary operators.
  The other expression kinds of the file (concatenation, calls, ...) are not modelled.
  The type parameter \<open>'dt\<close> stands for \<open>DataType\<close>, which the emission of an expression
  only consults through \<open>IsScalar\<close>.
\<close>

record Bits =
  bit_count :: nat
  bits_value :: nat

datatype FormatPreference = kDefault | kUnsignedDecimal | kBinary | kHex

datatype 'dt Expression =
    Literal Bits FormatPreference bool
  | LogicRef string 'dt
  | Index "'dt Expression" "'dt Expression"
  | Slice "'dt Expression" "'dt Expression" "'dt Expression"
  | PartSelect "'dt Expression" "'dt Expression" "'dt Expression"
  | Ternary "'dt Expression" "'dt Expression" "'dt Expression"
  | BinaryInfix "'dt Expression" string "'dt Expression"
  | Unary string "'dt Expression"

text \<open>
  What \<open>vast.cc\<close> uses and \<open>vast.h\<close> and \<open>bits.h\<close> declare; neither header is among the
  sources, so the emission takes these as parameters: the virtual
  \<open>Expression::precedence()\<close>, \<open>Unary::IsReduction()\<close>, \<open>DataType::IsScalar()\<close>,
  \<open>Bits::ToString(FormatPreference::kUnsignedDecimal)\<close> and
  \<open>Bits::ToRawDigits(format, /*emit_leading_zeros=*/true)\<close>.
\<close>

record 'dt vast_h =
  precedence :: "'dt Expression \<Rightarrow> int"
  IsReduction :: "'dt Expression \<Rightarrow> bool"
  IsScalar :: "'dt \<Rightarrow> bool"
  BitsToString :: "Bits \<Rightarrow> string"
  BitsToRawDigits :: "FormatPreference \<Rightarrow> Bits \<Rightarrow> string"

text \<open>
  \<open>XLS_CHECK\<close> aborts the process when its condition is false: the emission then
  produces no string. That outcome is the error value of the model.
\<close>

datatype emit_error = CheckFailure

text \<open>\<open>absl::StrFormat("%d", n)\<close> for a bit count.\<close>

fun DecimalDigits :: "nat \<Rightarrow> string" where
  "DecimalDigits n =
     (if n < 10 then [char_of (48 + n)]
      else DecimalDigits (n div 10) @ [char_of (48 + n mod 10)])"

declare DecimalDigits.simps [simp del]

definition FitsInUint64 :: "Bits \<Rightarrow> bool" where
  "FitsInUint64 b \<longleftrightarrow> bits_value b < 2 ^ 64"

text \<open>
  \<open>Literal::IsLiteralWithValue(int64_t target)\<close>; the method is virtual and the
  override of \<open>Literal\<close> is the one in \<open>vast.cc\<close>.

  Modelled from the spec: the default of the base class \<open>Expression\<close> is in \<open>vast.h\<close>;
  an expression that is not a literal is not "the literal 0" (the emitter "elides the
  indexing when the index is the literal 0 and errors otherwise").
\<close>

definition Literal_IsLiteralWithValue :: "Bits \<Rightarrow> int \<Rightarrow> bool" where
  "Literal_IsLiteralWithValue b target =
     (if target < 0 then False
      else if \<not> FitsInUint64 b then False
      else int (bits_value b) = target)"

fun IsLiteralWithValue :: "'dt Expression \<Rightarrow> int \<Rightarrow> bool" where
  "IsLiteralWithValue (Literal b fmt emit_bit_count) target = Literal_IsLiteralWithValue b target"
| "IsLiteralWithValue _ target = False"

fun IsUnary :: "'dt Expression \<Rightarrow> bool" where
  "IsUnary (Unary op arg) = True"
| "IsUnary _ = False"

text \<open>\<open>dynamic_cast<LogicRef*>(expr) != nullptr && logic_ref->def()->data_type()->IsScalar()\<close>\<close>

fun IsScalarLogicRef :: "'dt vast_h \<Rightarrow> 'dt Expression \<Rightarrow> bool" where
  "IsScalarLogicRef X (LogicRef name dt) = IsScalar X dt"
| "IsScalarLogicRef X _ = False"

definition ParenWrap :: "string \<Rightarrow> string" where
  "ParenWrap s = ''('' @ s @ '')''"

definition Literal_Emit :: "'dt vast_h \<Rightarrow> Bits \<Rightarrow> FormatPreference \<Rightarrow> bool \<Rightarrow> emit_error + string" where
  "Literal_Emit X b fmt emit_bit_count =
     (case fmt of
        kDefault \<Rightarrow> if \<not> bit_count b \<le> 32 then Inl CheckFailure else Inr (BitsToString X b)
      | kUnsignedDecimal \<Rightarrow>
          Inr ((if emit_bit_count then DecimalDigits (bit_count b) @ [CHR 0x27] @ ''d'' else [])
               @ BitsToString X b)
      | kBinary \<Rightarrow> Inr (DecimalDigits (bit_count b) @ [CHR 0x27] @ ''b'' @ BitsToRawDigits X kBinary b)
      | kHex \<Rightarrow> Inr (DecimalDigits (bit_count b) @ [CHR 0x27] @ ''h'' @ BitsToRawDigits X kHex b))"

text \<open>The lambda \<open>is_unary_reduction\<close> of \<open>BinaryInfix::Emit\<close>.\<close>

definition is_unary_reduction :: "'dt vast_h \<Rightarrow> 'dt Expression \<Rightarrow> bool" where
  "is_unary_reduction X e \<longleftrightarrow> IsUnary e \<and> IsReduction X e"

text \<open>
  \<open>Emit\<close>, by kind. The \<open>LineInfo\<close> calls record line numbers and do not change the
  string returned, so they are left out.

  Modelled from the spec: \<open>LogicRef::Emit\<close> is defined in \<open>vast.h\<close>; a reference emits the
  name of the signal it refers to (a reference to \<open>logic r;\<close> emits \<open>r\<close>).
\<close>

fun Emit :: "'dt vast_h \<Rightarrow> 'dt Expression \<Rightarrow> emit_error + string" where
  "Emit X (Literal b fmt emit_bit_count) = Literal_Emit X b fmt emit_bit_count"
| "Emit X (LogicRef name dt) = Inr name"
| "Emit X (Slice subject hi lo) =
     (if IsScalarLogicRef X subject then
        (if \<not> IsLiteralWithValue hi 0 then Inl CheckFailure
         else if \<not> IsLiteralWithValue lo 0 then Inl CheckFailure
         else Emit X subject)
      else
        (case Emit X subject of Inl e \<Rightarrow> Inl e | Inr s \<Rightarrow>
         (case Emit X hi of Inl e \<Rightarrow> Inl e | Inr h \<Rightarrow>
          (case Emit X lo of Inl e \<Rightarrow> Inl e | Inr l \<Rightarrow>
             Inr (s @ ''['' @ h @ '':'' @ l @ '']'')))))"
| "Emit X (PartSelect subject start width) =
     (case Emit X subject of Inl e \<Rightarrow> Inl e | Inr s \<Rightarrow>
      (case Emit X start of Inl e \<Rightarrow> Inl e | Inr st \<Rightarrow>
       (case Emit X width of Inl e \<Rightarrow> Inl e | Inr w \<Rightarrow>
          Inr (s @ ''['' @ st @ '' +: '' @ w @ '']''))))"
| "Emit X (Index subject index) =
     (if IsScalarLogicRef X subject then
        (if \<not> IsLiteralWithValue index 0 then Inl CheckFailure
         else Emit X subject)
      else
        (case Emit X subject of Inl e \<Rightarrow> Inl e | Inr s \<Rightarrow>
         (case Emit X index of Inl e \<Rightarrow> Inl e | Inr i \<Rightarrow>
            Inr (s @ ''['' @ i @ '']''))))"
| "Emit X (Ternary test consequent alternate) =
     (case Emit X test of Inl e \<Rightarrow> Inl e | Inr t \<Rightarrow>
      (case Emit X consequent of Inl e \<Rightarrow> Inl e | Inr c \<Rightarrow>
       (case Emit X alternate of Inl e \<Rightarrow> Inl e | Inr a \<Rightarrow>
          Inr ((if precedence X test \<le> precedence X (Ternary test consequent alternate)
                then ParenWrap t else t)
               @ '' ? '' @
               (if precedence X consequent \<le> precedence X (Ternary test consequent alternate)
                then ParenWrap c else c)
               @ '' : '' @
               (if precedence X alternate \<le> precedence X (Ternary test consequent alternate)
                then ParenWrap a else a)))))"
| "Emit X (BinaryInfix lhs op rhs) =
     (case Emit X lhs of Inl e \<Rightarrow> Inl e | Inr l \<Rightarrow>
      (case Emit X rhs of Inl e \<Rightarrow> Inl e | Inr r \<Rightarrow>
         Inr ((if precedence X lhs < precedence X (BinaryInfix lhs op rhs)
                  \<or> is_unary_reduction X lhs
               then ParenWrap l else l)
              @ '' '' @ op @ '' '' @
              (if precedence X rhs \<le> precedence X (BinaryInfix lhs op rhs)
                  \<or> is_unary_reduction X rhs
               then ParenWrap r else r))))"
| "Emit X (Unary op arg) =
     (case Emit X arg of Inl e \<Rightarrow> Inl e | Inr a \<Rightarrow>
        Inr (op @ (if precedence X arg < precedence X (Unary op arg) \<or> IsUnary arg
                   then ParenWrap a else a)))"

text \<open>
  An instance of the absent declarations, to evaluate \<open>Emit\<close> on concrete expressions.
  The data type of a signal is given by its width and dimensions as numbers; a signal
  declared with no width and no dimension (\<open>logic r;\<close>) is scalar. Operators get the
  precedence levels of Verilog (unary above multiplicative above additive ...), operands
  that are not operators the highest level. The reductions are the unary operators
  \<open>&\<close>, \<open>|\<close>, \<open>^\<close> and their negations. Literals print their value in decimal.
\<close>

record SignalType =
  is_signed :: bool
  width :: "nat option"
  packed_dims :: "nat list"
  unpacked_dims :: "nat list"

definition scalar_type :: SignalType where
  "scalar_type = \<lparr>is_signed = False, width = None, packed_dims = [], unpacked_dims = []\<rparr>"

definition vector_type :: "nat \<Rightarrow> SignalType" where
  "vector_type n = \<lparr>is_signed = False, width = Some n, packed_dims = [], unpacked_dims = []\<rparr>"

fun verilog_precedence :: "SignalType Expression \<Rightarrow> int" where
  "verilog_precedence (Unary op arg) = 12"
| "verilog_precedence (BinaryInfix lhs op rhs) =
     (if op \<in> set [''*'', ''/'', ''%''] then 10
      else if op \<in> set [''+'', ''-''] then 9
      else if op \<in> set [''<<'', ''>>''] then 8
      else if op \<in> set [''&''] then 5
      else if op \<in> set [''|''] then 3
      else if op \<in> set [''&&''] then 2
      else 1)"
| "verilog_precedence (Ternary t c a) = 0"
| "verilog_precedence _ = 13"

fun verilog_reduction :: "SignalType Expression \<Rightarrow> bool" where
  "verilog_reduction (Unary op arg) = (op \<in> set [''&'', ''~&'', ''|'', ''~|'', ''^'', ''~^''])"
| "verilog_reduction _ = False"

definition verilog_h :: "SignalType vast_h" where
  "verilog_h =
     \<lparr>precedence = verilog_precedence,
      IsReduction = verilog_reduction,
      IsScalar = (\<lambda>t. width t = None \<and> packed_dims t = [] \<and> unpacked_dims t = []),
      BitsToString = (\<lambda>b. DecimalDigits (bits_value b)),
      BitsToRawDigits = (\<lambda>f b. DecimalDigits (bits_value b))\<rparr>"

definition PlainLiteral :: "nat \<Rightarrow> 'dt Expression" where
  "PlainLiteral n = Literal \<lparr>bit_count = 32, bits_value = n\<rparr> kDefault True"


section \<open>The IR: types, values, nodes\<close>

text \<open>
  The passes and the scheduler work on the IR, whose classes (\<open>Type\<close>, \<open>Value\<close>, \<open>Node\<close>,
  \<open>FunctionBase\<close>, \<open>Proc\<close>) are declared in headers that are not among the sources.

  Modelled from the spec: a type is \<open>bits(width)\<close>, \<open>tuple(elements)\<close>,
  \<open>array(element, size)\<close> or \<open>token\<close>; every type has a flat bit count, 0 for a token.
  A leaf of a type is one of its bits or token components (\<open>LeafTypeTree\<close> holds one
  element for each).
\<close>

datatype Type = BitsType nat | TupleType "Type list" | ArrayType Type nat | TokenType

fun GetFlatBitCount :: "Type \<Rightarrow> nat" where
  "GetFlatBitCount (BitsType w) = w"
| "GetFlatBitCount (TupleType ts) = sum_list (map GetFlatBitCount ts)"
| "GetFlatBitCount (ArrayType t n) = n * GetFlatBitCount t"
| "GetFlatBitCount TokenType = 0"

fun leaf_count :: "Type \<Rightarrow> nat" where
  "leaf_count (BitsType w) = 1"
| "leaf_count (TupleType ts) = sum_list (map leaf_count ts)"
| "leaf_count (ArrayType t n) = n * leaf_count t"
| "leaf_count TokenType = 1"

text \<open>
  Modelled from the spec: a value of a type, and the zero value of a type
  (\<open>ZeroOfType\<close> of \<open>value_helpers.h\<close>), used for the "zero-literal of its type". An
  array value carries its element type, so that the type of every value is known.
\<close>

datatype Value = BitsValue nat nat | TupleValue "Value list" | ArrayValue Type "Value list"
  | TokenValue

fun ZeroOfType :: "Type \<Rightarrow> Value" where
  "ZeroOfType (BitsType w) = BitsValue w 0"
| "ZeroOfType (TupleType ts) = TupleValue (map ZeroOfType ts)"
| "ZeroOfType (ArrayType t n) = ArrayValue t (replicate n (ZeroOfType t))"
| "ZeroOfType TokenType = TokenValue"

fun TypeOfValue :: "Value \<Rightarrow> Type" where
  "TypeOfValue (BitsValue w v) = BitsType w"
| "TypeOfValue (TupleValue vs) = TupleType (map TypeOfValue vs)"
| "TypeOfValue (ArrayValue t vs) = ArrayType t (length vs)"
| "TypeOfValue TokenValue = TokenType"

text \<open>
  Modelled from the spec: the operation kinds (a selection of them) and which of them are
  side-effecting: "any op whose execution has externally visible effect (send, receive,
  assert, cover, and similar)". The pass tests for \<open>OpIsSideEffecting(op) && !Is<Param>()\<close>;
  parameters count as side-effecting and are excluded by that second test.
\<close>

datatype Op = kParam | kLiteral | kSend | kReceive | kAssert | kCover | kAdd | kUMul
  | kConcat | kTuple | kTupleIndex | kAfterAll | kIdentity

definition OpIsSideEffecting :: "Op \<Rightarrow> bool" where
  "OpIsSideEffecting o' \<longleftrightarrow> o' \<in> set [kParam, kSend, kReceive, kAssert, kCover]"

text \<open>\<open>absl::Status\<close> with an error code and a message (\<open>OkStatus\<close> is the \<open>Inr\<close> of a result).\<close>

datatype StatusCode = kInternal | kUnavailable | kNotFound | kInvalidArgument
  | kFailedPrecondition | kUnimplemented

datatype Status = Status StatusCode string

text \<open>
  How a run can fail: with an error status returned, or aborted (a failed check, a
  lookup with \<open>.at()\<close> of a key that is not in the map).
\<close>

datatype failure = Aborted | Failed Status

text \<open>
  Modelled from the spec: a node is a single-assignment operation with a stable identity
  (here a number, for \<open>Node*\<close>), a name, an operation kind, an ordered operand list
  (the identities of other nodes) and a result type. \<open>channel\<close> is what
  \<open>GetChannelUsedByNode\<close> returns for the node (the channel's name, or an error status);
  \<open>literal_value\<close> is the value of a literal node.
\<close>

record Node =
  node_id :: nat
  node_name :: string
  node_op :: Op
  operands :: "nat list"
  node_type :: Type
  channel :: "Status + string"
  literal_value :: "Value option"

text \<open>
  Modelled from the spec: what the scheduler reads of a \<open>FunctionBase\<close>: its nodes in
  \<open>nodes()\<close> order (insertion order) and the nodes with an implicit use (the return value
  of a function; the next token and the next-state values of a proc). The users of a
  node are the nodes that have it as an operand, each once.
\<close>

record FunctionBase =
  fb_nodes :: "Node list"
  fb_implicit_use :: "nat list"

definition node_count :: "FunctionBase \<Rightarrow> nat" where
  "node_count f = length (fb_nodes f)"

definition users :: "FunctionBase \<Rightarrow> Node \<Rightarrow> Node list" where
  "users f n = filter (\<lambda>u. node_id n \<in> set (operands u)) (fb_nodes f)"

definition HasImplicitUse :: "FunctionBase \<Rightarrow> Node \<Rightarrow> bool" where
  "HasImplicitUse f n \<longleftrightarrow> node_id n \<in> set (fb_implicit_use f)"

definition GetNameOf :: "FunctionBase \<Rightarrow> nat \<Rightarrow> string" where
  "GetNameOf f i = (case find (\<lambda>n. node_id n = i) (fb_nodes f) of Some n \<Rightarrow> node_name n | None \<Rightarrow> [])"


section \<open>The SDC scheduler: combinational delay constraints (sdc_scheduler.cc)\<close>

text \<open>
  \<open>ComputeCombinationalDelayConstraints\<close>. The maps keyed by \<open>Node*\<close> are maps keyed by
  the node's identity; the vectors of distances are lists of length \<open>node_count\<close> with
  \<open>-1\<close> for "no path", as in the source. The distances, the delays and the clock period
  are \<open>int64_t\<close> values: integers from \<open>-2^63\<close> to \<open>2^63 - 1\<close>. The one arithmetic
  operation on them is the sum \<open>operand_distance + node_delay\<close>, which wraps around when it
  leaves that range (\<open>int64_wrap\<close>).

  \<open>TopoSort(f)\<close> is not among the sources; the nodes in that order are an argument
  (\<open>topo\<close>). A lookup with \<open>.at()\<close> that finds no entry ends the run: the result is
  \<open>None\<close>.

  The first loop fills \<open>node_to_index\<close> and creates the empty entry \<open>result[node]\<close>;
  \<open>index_to_node[i]\<close> is the \<open>i\<close>-th node of \<open>f->nodes()\<close>.
\<close>

definition int64_wrap :: "int \<Rightarrow> int" where
  "int64_wrap x = (x + 2 ^ 63) mod 2 ^ 64 - 2 ^ 63"

type_synonym DelayMap = "nat \<rightharpoonup> int"

fun node_index_loop ::
  "Node list \<Rightarrow> nat \<Rightarrow> (nat \<rightharpoonup> nat) \<times> (nat \<rightharpoonup> nat list) \<Rightarrow> (nat \<rightharpoonup> nat) \<times> (nat \<rightharpoonup> nat list)" where
  "node_index_loop [] index st = st"
| "node_index_loop (node # rest) index (node_to_index, result) =
     node_index_loop rest (Suc index)
       (node_to_index(node_id node \<mapsto> index),
        (case result (node_id node) of None \<Rightarrow> result(node_id node \<mapsto> []) | Some v \<Rightarrow> result))"

definition index_to_node :: "FunctionBase \<Rightarrow> nat \<Rightarrow> nat" where
  "index_to_node f i = node_id (fb_nodes f ! i)"

definition push_back :: "(nat \<rightharpoonup> nat list) \<Rightarrow> nat \<Rightarrow> nat \<Rightarrow> (nat \<rightharpoonup> nat list)" where
  "push_back result key node =
     result(key \<mapsto> (case result key of None \<Rightarrow> [] | Some v \<Rightarrow> v) @ [node])"

text \<open>The loop over \<open>i\<close> for one operand, the loop over the operands, the loop over the nodes.\<close>

fun distance_loop ::
  "FunctionBase \<Rightarrow> int \<Rightarrow> nat \<Rightarrow> int \<Rightarrow> int list \<Rightarrow> nat list
     \<Rightarrow> int list \<times> (nat \<rightharpoonup> nat list) \<Rightarrow> int list \<times> (nat \<rightharpoonup> nat list)" where
  "distance_loop f clock_period_ps node node_delay distances_to_operand [] st = st"
| "distance_loop f clock_period_ps node node_delay distances_to_operand (i # is) (distances, result) =
     (let operand_distance = distances_to_operand ! i in
      if operand_distance \<noteq> -1 then
        if distances ! i < int64_wrap (operand_distance + node_delay) then
          distance_loop f clock_period_ps node node_delay distances_to_operand is
            (distances[i := int64_wrap (operand_distance + node_delay)],
             if operand_distance \<le> clock_period_ps
                \<and> int64_wrap (operand_distance + node_delay) > clock_period_ps
             then push_back result (index_to_node f i) node else result)
        else distance_loop f clock_period_ps node node_delay distances_to_operand is (distances, result)
      else distance_loop f clock_period_ps node node_delay distances_to_operand is (distances, result))"

fun operand_loop ::
  "FunctionBase \<Rightarrow> int \<Rightarrow> nat \<Rightarrow> int \<Rightarrow> (nat \<rightharpoonup> int list) \<Rightarrow> nat list
     \<Rightarrow> int list \<times> (nat \<rightharpoonup> nat list) \<Rightarrow> (int list \<times> (nat \<rightharpoonup> nat list)) option" where
  "operand_loop f clock_period_ps node node_delay distances_to_node [] st = Some st"
| "operand_loop f clock_period_ps node node_delay distances_to_node (operand # rest) st =
     (case distances_to_node operand of
        None \<Rightarrow> None
      | Some distances_to_operand \<Rightarrow>
          operand_loop f clock_period_ps node node_delay distances_to_node rest
            (distance_loop f clock_period_ps node node_delay distances_to_operand
               [0..<node_count f] st))"

fun topo_loop ::
  "FunctionBase \<Rightarrow> int \<Rightarrow> DelayMap \<Rightarrow> (nat \<rightharpoonup> nat) \<Rightarrow> Node list
     \<Rightarrow> (nat \<rightharpoonup> int list) \<times> (nat \<rightharpoonup> nat list)
     \<Rightarrow> ((nat \<rightharpoonup> int list) \<times> (nat \<rightharpoonup> nat list)) option" where
  "topo_loop f clock_period_ps delay_map node_to_index [] st = Some st"
| "topo_loop f clock_period_ps delay_map node_to_index (node # rest) (distances_to_node, result) =
     (case node_to_index (node_id node) of
        None \<Rightarrow> None
      | Some node_index \<Rightarrow>
     (case delay_map (node_id node) of
        None \<Rightarrow> None
      | Some node_delay \<Rightarrow>
     (case operand_loop f clock_period_ps (node_id node) node_delay distances_to_node
             (operands node) (replicate (node_count f) (-1), result) of
        None \<Rightarrow> None
      | Some (distances, result') \<Rightarrow>
          topo_loop f clock_period_ps delay_map node_to_index rest
            (distances_to_node(node_id node \<mapsto> distances[node_index := node_delay]), result'))))"

text \<open>
  The whole computation, returning \<open>distances_to_node\<close> together with the result map;
  the function of the source returns the result map only.
\<close>

definition CombinationalDelayAnalysis ::
  "FunctionBase \<Rightarrow> Node list \<Rightarrow> int \<Rightarrow> DelayMap
     \<Rightarrow> ((nat \<rightharpoonup> int list) \<times> (nat \<rightharpoonup> nat list)) option" where
  "CombinationalDelayAnalysis f topo clock_period_ps delay_map =
     (case node_index_loop (fb_nodes f) 0 (Map.empty, Map.empty) of
        (node_to_index, result) \<Rightarrow>
          topo_loop f clock_period_ps delay_map node_to_index topo (Map.empty, result))"

definition ComputeCombinationalDelayConstraints ::
  "FunctionBase \<Rightarrow> Node list \<Rightarrow> int \<Rightarrow> DelayMap \<Rightarrow> (nat \<rightharpoonup> nat list) option" where
  "ComputeCombinationalDelayConstraints f topo clock_period_ps delay_map =
     map_option snd (CombinationalDelayAnalysis f topo clock_period_ps delay_map)"

subsection \<open>Delay-weighted paths\<close>

text \<open>
  A path from \<open>a\<close> to \<open>b\<close> follows operand edges: every node of the path but the first
  has its predecessor among its operands. Its weight is the sum of the delays of its nodes,
  both endpoints included; the path of the single node \<open>a\<close> has the weight \<open>delay(a)\<close>.
  \<open>longest f delay_map a b d\<close>: \<open>d\<close> is the critical-path distance from \<open>a\<close> to \<open>b\<close>, the
  largest weight of a path from \<open>a\<close> to \<open>b\<close>.
\<close>

inductive path_weight :: "FunctionBase \<Rightarrow> DelayMap \<Rightarrow> nat \<Rightarrow> nat \<Rightarrow> int \<Rightarrow> bool"
  for f :: FunctionBase and delay_map :: DelayMap where
  path_self: "n \<in> set (fb_nodes f) \<Longrightarrow> delay_map (node_id n) = Some d
     \<Longrightarrow> path_weight f delay_map (node_id n) (node_id n) d"
| path_step: "path_weight f delay_map a x w \<Longrightarrow> n \<in> set (fb_nodes f) \<Longrightarrow> x \<in> set (operands n)
     \<Longrightarrow> delay_map (node_id n) = Some d
     \<Longrightarrow> path_weight f delay_map a (node_id n) (w + d)"

code_pred path_weight .

definition longest :: "FunctionBase \<Rightarrow> DelayMap \<Rightarrow> nat \<Rightarrow> nat \<Rightarrow> int \<Rightarrow> bool" where
  "longest f delay_map a b d \<longleftrightarrow>
     path_weight f delay_map a b d \<and> (\<forall>w. path_weight f delay_map a b w \<longrightarrow> w \<le> d)"

text \<open>
  The result vector of the node \<open>a\<close> (\<open>None\<close> when the run ends early or the map has no
  entry for \<open>a\<close>).
\<close>

definition constraints_for ::
  "FunctionBase \<Rightarrow> Node list \<Rightarrow> int \<Rightarrow> DelayMap \<Rightarrow> nat \<Rightarrow> nat list option" where
  "constraints_for f topo clock_period_ps delay_map a =
     (case ComputeCombinationalDelayConstraints f topo clock_period_ps delay_map of
        None \<Rightarrow> None
      | Some result \<Rightarrow> result a)"

section \<open>The SDC scheduler: the linear program (sdc_scheduler.cc)\<close>

text \<open>
  The scheduler states a linear program through the interface of the external solver
  (\<open>operations_research::MPSolver\<close>): variables with bounds (\<open>MakeNumVar\<close>), row
  constraints \<open>lb \<le> \<Sum> coefficient * variable \<le> ub\<close> (\<open>MakeRowConstraint\<close>,
  \<open>SetCoefficient\<close>) and an objective. The state of the solver object is the record
  \<open>MPSolver\<close>. A variable is identified by what it stands for: the cycle of a node, the
  lifetime of a node, or the cycle of the artificial sink. \<open>SetCoefficient\<close> overwrites, so
  the coefficients of a row are a function, updated in the order of the calls.
\<close>

datatype Var = cycle_var nat | lifetime_var nat | cycle_at_sinknode

datatype Bound = NegInfinity | Finite int | Infinity

record MPVariable =
  mp_var :: Var
  var_lb :: Bound
  var_ub :: Bound
  var_name :: string

record MPConstraint =
  row_lb :: Bound
  row_ub :: Bound
  row_name :: string
  coefficient :: "Var \<Rightarrow> int"

record MPSolver =
  solver_variables :: "MPVariable list"
  solver_constraints :: "MPConstraint list"
  objective :: "Var \<Rightarrow> int"
  minimization :: bool

datatype ResultStatus = OPTIMAL | FEASIBLE | INFEASIBLE | UNBOUNDED | ABNORMAL
  | MODEL_INVALID | NOT_SOLVED

text \<open>
  Modelled from the spec: the scheduling constraints (\<open>IOConstraint{src_channel, src_dir,
  tgt_channel, tgt_dir, min_latency, max_latency}\<close> and receives-first/sends-last) and the
  precomputed integer lower and upper bounds of each node (\<open>sched::ScheduleBounds\<close>); their
  declarations are not among the sources.
\<close>

datatype IODirection = IODirection_kReceive | IODirection_kSend

record IOConstraint =
  SourceChannel :: string
  SourceDirection :: IODirection
  TargetChannel :: string
  TargetDirection :: IODirection
  MinimumLatency :: int
  MaximumLatency :: int

datatype SchedulingConstraint = IO IOConstraint | RecvsFirstSendsLast

record ScheduleBounds =
  bounds_lb :: "nat \<Rightarrow> int"
  bounds_ub :: "nat \<Rightarrow> int"

text \<open>
  What the scheduler gets from code that is not among the sources: whether
  \<open>MPSolver::CreateSolver("GLOP")\<close> returns a solver, what \<open>Solve\<close> returns for a
  problem (the result status and the \<open>solution_value\<close> of each variable; the solution
  values, \<open>double\<close>s in the source, are real numbers here), and \<open>TopoSort\<close>.
\<close>

record sdc_env =
  CreateSolver :: bool
  Solve :: "MPSolver \<Rightarrow> ResultStatus \<times> (Var \<Rightarrow> real)"
  TopoSort :: "FunctionBase \<Rightarrow> Node list"

text \<open>
  \<open>ComputeNodeDelays\<close>; the delay estimator (\<open>GetOperationDelayInPs\<close>) is an argument,
  and the first error it returns is returned.
\<close>

fun ComputeNodeDelays ::
  "Node list \<Rightarrow> (Node \<Rightarrow> Status + int) \<Rightarrow> DelayMap \<Rightarrow> Status + DelayMap" where
  "ComputeNodeDelays [] delay_estimator result = Inr result"
| "ComputeNodeDelays (node # rest) delay_estimator result =
     (case delay_estimator node of
        Inl e \<Rightarrow> Inl e
      | Inr d \<Rightarrow> ComputeNodeDelays rest delay_estimator (result(node_id node \<mapsto> d)))"

definition MakeNumVar :: "Bound \<Rightarrow> Bound \<Rightarrow> Var \<Rightarrow> string \<Rightarrow> MPSolver \<Rightarrow> MPSolver" where
  "MakeNumVar l u v nm solver =
     solver\<lparr>solver_variables := solver_variables solver @ [\<lparr>mp_var = v, var_lb = l, var_ub = u, var_name = nm\<rparr>]\<rparr>"

definition MakeRowConstraint ::
  "Bound \<Rightarrow> Bound \<Rightarrow> string \<Rightarrow> (Var \<times> int) list \<Rightarrow> MPSolver \<Rightarrow> MPSolver" where
  "MakeRowConstraint l u nm coeffs solver =
     solver\<lparr>solver_constraints := solver_constraints solver @
       [\<lparr>row_lb = l, row_ub = u, row_name = nm,
         coefficient = fold (\<lambda>(v, c) k. k(v := c)) coeffs (\<lambda>_. 0)\<rparr>]\<rparr>"

definition empty_solver :: MPSolver where
  "empty_solver = \<lparr>solver_variables = [], solver_constraints = [], objective = (\<lambda>_. 0), minimization = False\<rparr>"

text \<open>The constructor of \<open>ConstraintBuilder\<close>: two variables for each node, then the sink.\<close>

fun make_node_vars :: "ScheduleBounds \<Rightarrow> Node list \<Rightarrow> MPSolver \<Rightarrow> MPSolver" where
  "make_node_vars bounds [] solver = solver"
| "make_node_vars bounds (node # rest) solver =
     make_node_vars bounds rest
       (MakeNumVar (Finite 0) Infinity (lifetime_var (node_id node)) (''lifetime_'' @ node_name node)
         (MakeNumVar (Finite (bounds_lb bounds (node_id node))) (Finite (bounds_ub bounds (node_id node)))
            (cycle_var (node_id node)) (node_name node) solver))"

definition ConstraintBuilder :: "FunctionBase \<Rightarrow> ScheduleBounds \<Rightarrow> MPSolver" where
  "ConstraintBuilder func bounds =
     MakeNumVar NegInfinity Infinity cycle_at_sinknode ''cycle_at_sinknode''
       (make_node_vars bounds (fb_nodes func) empty_solver)"

text \<open>
  \<open>AddCausalConstraint\<close>, \<open>AddLifetimeConstraint\<close>, \<open>AddDefUseConstraints\<close>. The user is a
  node or, for an implicit use, absent: then the sink variable is used, and the name is
  the UTF-8 text of the source's string literal.
\<close>

definition user_var :: "Node option \<Rightarrow> Var" where
  "user_var user = (case user of Some u \<Rightarrow> cycle_var (node_id u) | None \<Rightarrow> cycle_at_sinknode)"

definition user_str :: "Node option \<Rightarrow> string" where
  "user_str user =
     (case user of Some u \<Rightarrow> node_name u
      | None \<Rightarrow> [CHR 0xC2, CHR 0xAB] @ ''sink'' @ [CHR 0xC2, CHR 0xBB])"

definition AddCausalConstraint :: "Node \<Rightarrow> Node option \<Rightarrow> MPSolver \<Rightarrow> MPSolver" where
  "AddCausalConstraint node user solver =
     MakeRowConstraint NegInfinity (Finite 0) (''causal_'' @ node_name node @ ''_'' @ user_str user)
       [(cycle_var (node_id node), 1), (user_var user, -1)] solver"

definition AddLifetimeConstraint :: "Node \<Rightarrow> Node option \<Rightarrow> MPSolver \<Rightarrow> MPSolver" where
  "AddLifetimeConstraint node user solver =
     MakeRowConstraint NegInfinity (Finite 0) (''lifetime_'' @ node_name node @ ''_'' @ user_str user)
       [(user_var user, 1), (cycle_var (node_id node), -1), (lifetime_var (node_id node), -1)]
       solver"

definition AddDefUseConstraints :: "Node \<Rightarrow> Node option \<Rightarrow> MPSolver \<Rightarrow> MPSolver" where
  "AddDefUseConstraints node user solver =
     AddLifetimeConstraint node user (AddCausalConstraint node user solver)"

text \<open>
  \<open>AddTimingConstraints\<close>. The cache \<open>delay_constraints_\<close> is empty when the scheduler
  makes its one call, so the constraints are computed in the call.
\<close>

fun timing_target_loop :: "FunctionBase \<Rightarrow> Node \<Rightarrow> nat list \<Rightarrow> MPSolver \<Rightarrow> MPSolver" where
  "timing_target_loop f source [] solver = solver"
| "timing_target_loop f source (target # rest) solver =
     timing_target_loop f source rest
       (MakeRowConstraint (Finite 1) Infinity
          (''timing_'' @ node_name source @ ''_'' @ GetNameOf f target)
          [(cycle_var target, 1), (cycle_var (node_id source), -1)] solver)"

fun timing_source_loop ::
  "FunctionBase \<Rightarrow> (nat \<rightharpoonup> nat list) \<Rightarrow> Node list \<Rightarrow> MPSolver \<Rightarrow> MPSolver option" where
  "timing_source_loop f delay_constraints [] solver = Some solver"
| "timing_source_loop f delay_constraints (source # rest) solver =
     (case delay_constraints (node_id source) of
        None \<Rightarrow> None
      | Some targets \<Rightarrow>
          timing_source_loop f delay_constraints rest (timing_target_loop f source targets solver))"

definition AddTimingConstraints ::
  "sdc_env \<Rightarrow> FunctionBase \<Rightarrow> int \<Rightarrow> DelayMap \<Rightarrow> MPSolver \<Rightarrow> MPSolver option" where
  "AddTimingConstraints env func clock_period_ps delay_map solver =
     (case ComputeCombinationalDelayConstraints func (TopoSort env func) clock_period_ps delay_map of
        None \<Rightarrow> None
      | Some delay_constraints \<Rightarrow>
          timing_source_loop func delay_constraints (fb_nodes func) solver)"

text \<open>
  \<open>AddIOConstraint\<close>. \<open>channel_to_nodes\<close> is built over all send and receive nodes first
  (an error of \<open>GetChannelUsedByNode\<close> is returned), then read for the two channels.
\<close>

fun channel_nodes_loop :: "Node list \<Rightarrow> (string \<times> Node) list \<Rightarrow> Status + (string \<times> Node) list" where
  "channel_nodes_loop [] acc = Inr acc"
| "channel_nodes_loop (node # rest) acc =
     (if node_op node = kReceive \<or> node_op node = kSend then
        (case channel node of
           Inl e \<Rightarrow> Inl e
         | Inr ch \<Rightarrow> channel_nodes_loop rest (acc @ [(ch, node)]))
      else channel_nodes_loop rest acc)"

definition channel_to_nodes :: "(string \<times> Node) list \<Rightarrow> string \<Rightarrow> Node list" where
  "channel_to_nodes m ch = map snd (filter (\<lambda>(c, n). c = ch) m)"

definition node_matches_direction :: "Node \<Rightarrow> IODirection \<Rightarrow> bool" where
  "node_matches_direction node dir \<longleftrightarrow>
     (node_op node = kSend \<and> dir = IODirection_kSend) \<or> (node_op node = kReceive \<and> dir = IODirection_kReceive)"

fun io_target_loop :: "IOConstraint \<Rightarrow> Node \<Rightarrow> Node list \<Rightarrow> MPSolver \<Rightarrow> MPSolver" where
  "io_target_loop constraint source [] solver = solver"
| "io_target_loop constraint source (target # rest) solver =
     (if \<not> node_matches_direction source (SourceDirection constraint) then
        io_target_loop constraint source rest solver
      else if \<not> node_matches_direction target (TargetDirection constraint) then
        io_target_loop constraint source rest solver
      else if node_id source = node_id target then
        io_target_loop constraint source rest solver
      else
        io_target_loop constraint source rest
          (MakeRowConstraint NegInfinity (Finite (MaximumLatency constraint))
             (''max_io_'' @ node_name source @ ''_'' @ node_name target)
             [(cycle_var (node_id target), 1), (cycle_var (node_id source), -1)]
             (MakeRowConstraint NegInfinity (Finite (- MinimumLatency constraint))
                (''min_io_'' @ node_name source @ ''_'' @ node_name target)
                [(cycle_var (node_id source), 1), (cycle_var (node_id target), -1)] solver)))"

fun io_source_loop :: "IOConstraint \<Rightarrow> Node list \<Rightarrow> Node list \<Rightarrow> MPSolver \<Rightarrow> MPSolver" where
  "io_source_loop constraint [] targets solver = solver"
| "io_source_loop constraint (source # rest) targets solver =
     io_source_loop constraint rest targets (io_target_loop constraint source targets solver)"

definition AddIOConstraint :: "FunctionBase \<Rightarrow> IOConstraint \<Rightarrow> MPSolver \<Rightarrow> Status + MPSolver" where
  "AddIOConstraint func constraint solver =
     (case channel_nodes_loop (fb_nodes func) [] of
        Inl e \<Rightarrow> Inl e
      | Inr m \<Rightarrow>
          Inr (io_source_loop constraint (channel_to_nodes m (SourceChannel constraint))
                 (channel_to_nodes m (TargetChannel constraint)) solver))"

text \<open>\<open>AddRFSLConstraint\<close>, \<open>AddSchedulingConstraint\<close> and the scheduler's loop over the constraints.\<close>

fun AddRFSLConstraint_loop :: "int \<Rightarrow> Node list \<Rightarrow> MPSolver \<Rightarrow> MPSolver" where
  "AddRFSLConstraint_loop pipeline_length [] solver = solver"
| "AddRFSLConstraint_loop pipeline_length (node # rest) solver =
     (let solver1 =
            (if node_op node = kReceive then
               MakeRowConstraint NegInfinity (Finite 0) (''recv_'' @ node_name node)
                 [(cycle_var (node_id node), 1)] solver
             else solver);
          solver2 =
            (if node_op node = kSend then
               MakeRowConstraint NegInfinity (Finite (- (pipeline_length - 1)))
                 (''send_'' @ node_name node) [(cycle_var (node_id node), -1)] solver1
             else solver1)
      in AddRFSLConstraint_loop pipeline_length rest solver2)"

definition AddRFSLConstraint :: "FunctionBase \<Rightarrow> int \<Rightarrow> MPSolver \<Rightarrow> Status + MPSolver" where
  "AddRFSLConstraint func pipeline_length solver =
     Inr (AddRFSLConstraint_loop pipeline_length (fb_nodes func) solver)"

fun AddSchedulingConstraint ::
  "FunctionBase \<Rightarrow> int \<Rightarrow> SchedulingConstraint \<Rightarrow> MPSolver \<Rightarrow> Status + MPSolver" where
  "AddSchedulingConstraint func pipeline_length (IO c) solver = AddIOConstraint func c solver"
| "AddSchedulingConstraint func pipeline_length RecvsFirstSendsLast solver =
     AddRFSLConstraint func pipeline_length solver"

fun scheduling_constraints_loop ::
  "FunctionBase \<Rightarrow> int \<Rightarrow> SchedulingConstraint list \<Rightarrow> MPSolver \<Rightarrow> Status + MPSolver" where
  "scheduling_constraints_loop func pipeline_length [] solver = Inr solver"
| "scheduling_constraints_loop func pipeline_length (c # rest) solver =
     (case AddSchedulingConstraint func pipeline_length c solver of
        Inl e \<Rightarrow> Inl e
      | Inr solver' \<Rightarrow> scheduling_constraints_loop func pipeline_length rest solver')"

text \<open>The scheduler's loop over the nodes and their users, and \<open>AddObjective\<close>.\<close>

fun def_use_user_loop :: "Node \<Rightarrow> Node list \<Rightarrow> MPSolver \<Rightarrow> MPSolver" where
  "def_use_user_loop node [] solver = solver"
| "def_use_user_loop node (user # rest) solver =
     def_use_user_loop node rest (AddDefUseConstraints node (Some user) solver)"

fun def_use_loop :: "FunctionBase \<Rightarrow> Node list \<Rightarrow> MPSolver \<Rightarrow> MPSolver" where
  "def_use_loop f [] solver = solver"
| "def_use_loop f (node # rest) solver =
     (let solver1 = def_use_user_loop node (users f node) solver;
          solver2 = (if HasImplicitUse f node then AddDefUseConstraints node None solver1
                     else solver1)
      in def_use_loop f rest solver2)"

fun AddObjective_loop :: "Node list \<Rightarrow> (Var \<Rightarrow> int) \<Rightarrow> (Var \<Rightarrow> int)" where
  "AddObjective_loop [] obj = obj"
| "AddObjective_loop (node # rest) obj =
     AddObjective_loop rest
       (obj(cycle_var (node_id node) := 1,
            lifetime_var (node_id node) := 1024 * int (GetFlatBitCount (node_type node))))"

definition AddObjective :: "FunctionBase \<Rightarrow> MPSolver \<Rightarrow> MPSolver" where
  "AddObjective func solver =
     solver\<lparr>objective := AddObjective_loop (fb_nodes func) (objective solver),
            minimization := True\<rparr>"

text \<open>
  \<open>ExtractResult\<close>. \<open>std::round\<close> rounds to the nearest integer, halfway cases away from
  zero. The solution values are doubles, taken as the real numbers they denote. The
  literal \<open>0.001\<close> of the source is a double as well: the double nearest to 1/1000, which
  is \<open>1152921504606847 / 2^60\<close> and lies slightly above 1/1000. The difference of a double
  and its rounding is a double, so that the comparison of the source is the comparison of
  these reals.
\<close>

definition double_0_001 :: real where
  "double_0_001 = 1152921504606847 / 2 ^ 60"

definition std_round :: "real \<Rightarrow> int" where
  "std_round x = (if 0 \<le> x then \<lfloor>x + 1/2\<rfloor> else \<lceil>x - 1/2\<rceil>)"

fun ExtractResult_loop ::
  "(Var \<Rightarrow> real) \<Rightarrow> Node list \<Rightarrow> (nat \<rightharpoonup> int) \<Rightarrow> Status + (nat \<rightharpoonup> int)" where
  "ExtractResult_loop solution_value [] cycle_map = Inr cycle_map"
| "ExtractResult_loop solution_value (node # rest) cycle_map =
     (let cycle = solution_value (cycle_var (node_id node)) in
      if \<bar>cycle - real_of_int (std_round cycle)\<bar> > double_0_001 then
        Inl (Status kInternal ''The scheduling result is expected to be integer'')
      else ExtractResult_loop solution_value rest (cycle_map(node_id node \<mapsto> std_round cycle)))"

definition ExtractResult :: "FunctionBase \<Rightarrow> (Var \<Rightarrow> real) \<Rightarrow> Status + (nat \<rightharpoonup> int)" where
  "ExtractResult func solution_value = ExtractResult_loop solution_value (fb_nodes func) Map.empty"

text \<open>
  \<open>SDCScheduler\<close>. \<open>BuildProblem\<close> is the part of its body between the creation of the
  builder and the call of \<open>Solve\<close>: it returns the state of the solver at that call.
\<close>

definition BuildProblem ::
  "sdc_env \<Rightarrow> FunctionBase \<Rightarrow> int \<Rightarrow> int \<Rightarrow> DelayMap \<Rightarrow> ScheduleBounds
     \<Rightarrow> SchedulingConstraint list \<Rightarrow> failure + MPSolver" where
  "BuildProblem env f pipeline_stages clock_period_ps delay_map bounds constraints =
     (case scheduling_constraints_loop f pipeline_stages constraints (ConstraintBuilder f bounds) of
        Inl e \<Rightarrow> Inl (Failed e)
      | Inr solver1 \<Rightarrow>
          (case AddTimingConstraints env f clock_period_ps delay_map
                  (def_use_loop f (fb_nodes f) solver1) of
             None \<Rightarrow> Inl Aborted
           | Some solver2 \<Rightarrow> Inr (AddObjective f solver2)))"

definition SDCScheduler ::
  "sdc_env \<Rightarrow> FunctionBase \<Rightarrow> int \<Rightarrow> int \<Rightarrow> (Node \<Rightarrow> Status + int) \<Rightarrow> ScheduleBounds
     \<Rightarrow> SchedulingConstraint list \<Rightarrow> failure + (nat \<rightharpoonup> int)" where
  "SDCScheduler env f pipeline_stages clock_period_ps delay_estimator bounds constraints =
     (if \<not> CreateSolver env then Inl (Failed (Status kUnavailable ''GLOP solver unavailable.''))
      else
        (case ComputeNodeDelays (fb_nodes f) delay_estimator Map.empty of
           Inl e \<Rightarrow> Inl (Failed e)
         | Inr delay_map \<Rightarrow>
        (case BuildProblem env f pipeline_stages clock_period_ps delay_map bounds constraints of
           Inl e \<Rightarrow> Inl e
         | Inr solver \<Rightarrow>
        (case Solve env solver of
           (status, solution_value) \<Rightarrow>
             if status \<noteq> OPTIMAL then
               Inl (Failed (Status kInternal ''The problem does not have an optimal solution''))
             else
               (case ExtractResult f solution_value of
                  Inl e \<Rightarrow> Inl (Failed e)
                | Inr cycle_map \<Rightarrow> Inr cycle_map)))))"

text \<open>The cycle a result of \<open>SDCScheduler\<close> assigns to a node, if it is a cycle map.\<close>

definition cycle_of :: "failure + (nat \<rightharpoonup> int) \<Rightarrow> nat \<Rightarrow> int option" where
  "cycle_of r i = (case r of Inl e \<Rightarrow> None | Inr cycle_map \<Rightarrow> cycle_map i)"

text \<open>
  What the scheduler relies on from the solver: when the status is \<open>OPTIMAL\<close>, the
  solution values satisfy the bounds of every variable and every row of the problem, up
  to the solver's tolerance \<open>tol\<close>. \<open>solver_sound\<close> says so for the problem that
  \<open>SDCScheduler\<close> builds from its arguments.
\<close>

definition row_activity :: "MPSolver \<Rightarrow> (Var \<Rightarrow> real) \<Rightarrow> MPConstraint \<Rightarrow> real" where
  "row_activity solver solution_value row =
     sum_list (map (\<lambda>v. real_of_int (coefficient row (mp_var v)) * solution_value (mp_var v))
                 (solver_variables solver))"

definition lower_ok :: "real \<Rightarrow> Bound \<Rightarrow> real \<Rightarrow> bool" where
  "lower_ok tol l x =
     (case l of NegInfinity \<Rightarrow> True | Finite a \<Rightarrow> real_of_int a - tol \<le> x | Infinity \<Rightarrow> False)"

definition upper_ok :: "real \<Rightarrow> Bound \<Rightarrow> real \<Rightarrow> bool" where
  "upper_ok tol u x =
     (case u of NegInfinity \<Rightarrow> False | Finite b \<Rightarrow> x \<le> real_of_int b + tol | Infinity \<Rightarrow> True)"

definition in_bounds :: "real \<Rightarrow> Bound \<Rightarrow> Bound \<Rightarrow> real \<Rightarrow> bool" where
  "in_bounds tol l u x \<longleftrightarrow> lower_ok tol l x \<and> upper_ok tol u x"

definition feasible :: "real \<Rightarrow> MPSolver \<Rightarrow> (Var \<Rightarrow> real) \<Rightarrow> bool" where
  "feasible tol solver solution_value \<longleftrightarrow>
     list_all (\<lambda>v. in_bounds tol (var_lb v) (var_ub v) (solution_value (mp_var v))) (solver_variables solver)
   \<and> list_all (\<lambda>row. in_bounds tol (row_lb row) (row_ub row) (row_activity solver solution_value row))
       (solver_constraints solver)"

definition solver_sound ::
  "real \<Rightarrow> sdc_env \<Rightarrow> FunctionBase \<Rightarrow> int \<Rightarrow> int \<Rightarrow> (Node \<Rightarrow> Status + int) \<Rightarrow> ScheduleBounds
     \<Rightarrow> SchedulingConstraint list \<Rightarrow> bool" where
  "solver_sound tol env f pipeline_stages clock_period_ps delay_estimator bounds cs =
     (case ComputeNodeDelays (fb_nodes f) delay_estimator Map.empty of
        Inl e \<Rightarrow> True
      | Inr delay_map \<Rightarrow>
     (case BuildProblem env f pipeline_stages clock_period_ps delay_map bounds cs of
        Inl e \<Rightarrow> True
      | Inr solver \<Rightarrow>
     (case Solve env solver of
        (status, solution_value) \<Rightarrow> status = OPTIMAL \<longrightarrow> feasible tol solver solution_value)))"

text \<open>The problem built from the arguments has a point that satisfies it exactly.\<close>

definition has_feasible_point ::
  "sdc_env \<Rightarrow> FunctionBase \<Rightarrow> int \<Rightarrow> int \<Rightarrow> (Node \<Rightarrow> Status + int) \<Rightarrow> ScheduleBounds
     \<Rightarrow> SchedulingConstraint list \<Rightarrow> bool" where
  "has_feasible_point env f pipeline_stages clock_period_ps delay_estimator bounds cs \<longleftrightarrow>
     (\<exists>delay_map solver solution_value.
        ComputeNodeDelays (fb_nodes f) delay_estimator Map.empty = Inr delay_map
      \<and> BuildProblem env f pipeline_stages clock_period_ps delay_map bounds cs = Inr solver
      \<and> feasible 0 solver solution_value)"

text \<open>
  The rows the builder adds for causality and for receives-first/sends-last, and
  "\<open>s'\<close> has the variables of \<open>s\<close> and at least its rows".
\<close>

definition causal_row :: "Node \<Rightarrow> Node option \<Rightarrow> MPConstraint" where
  "causal_row n u = \<lparr>row_lb = NegInfinity, row_ub = Finite 0,
       row_name = ''causal_'' @ node_name n @ ''_'' @ user_str u,
       coefficient = (\<lambda>_. 0)(cycle_var (node_id n) := 1, user_var u := -1)\<rparr>"

definition recv_row :: "Node \<Rightarrow> MPConstraint" where
  "recv_row n = \<lparr>row_lb = NegInfinity, row_ub = Finite 0, row_name = ''recv_'' @ node_name n,
       coefficient = (\<lambda>_. 0)(cycle_var (node_id n) := 1)\<rparr>"

definition send_row :: "int \<Rightarrow> Node \<Rightarrow> MPConstraint" where
  "send_row L n = \<lparr>row_lb = NegInfinity, row_ub = Finite (- (L - 1)),
       row_name = ''send_'' @ node_name n,
       coefficient = (\<lambda>_. 0)(cycle_var (node_id n) := -1)\<rparr>"

definition extends :: "MPSolver \<Rightarrow> MPSolver \<Rightarrow> bool" where
  "extends s s' \<longleftrightarrow> solver_variables s' = solver_variables s
      \<and> set (solver_constraints s) \<subseteq> set (solver_constraints s')"



section \<open>The proc state optimization pass (proc_state_optimization_pass.cc)\<close>

text \<open>
  Modelled from the spec: the class \<open>Proc\<close> (proc.h) and the node methods
  \<open>ReplaceUsesWithNew\<close> and \<open>IsDead\<close> (node.h) are not among the sources. A proc is its
  node list, its token parameter, its next-token node, and three parallel lists indexed by
  state element: the state parameters, their next-state nodes and their initial values.
  Nodes refer to each other by id. \<open>next_node_id\<close> is the package's id counter, from which
  a new node takes its id. \<open>proc_log\<close> is not a field of the class: it records, in order,
  the mutating calls the pass makes on the proc, so that the order of the calls can be
  stated.
\<close>

datatype proc_call = ReplaceUsesWithNewLiteral nat Value | RemoveStateElementCall nat

record Proc =
  proc_nodes :: "Node list"
  token_param :: Node
  next_token :: nat
  state_params :: "Node list"
  next_state :: "nat list"
  init_values :: "Value list"
  next_node_id :: nat
  proc_log :: "proc_call list"

definition GetStateElementCount :: "Proc \<Rightarrow> nat" where
  "GetStateElementCount p = length (state_params p)"

definition GetStateParam :: "Proc \<Rightarrow> nat \<Rightarrow> Node" where
  "GetStateParam p i = state_params p ! i"

definition GetStateElementType :: "Proc \<Rightarrow> nat \<Rightarrow> Type" where
  "GetStateElementType p i = node_type (GetStateParam p i)"

definition GetNextStateElement :: "Proc \<Rightarrow> nat \<Rightarrow> nat" where
  "GetNextStateElement p i = next_state p ! i"

fun find_index_of :: "nat \<Rightarrow> Node list \<Rightarrow> nat \<Rightarrow> nat option" where
  "find_index_of x [] k = None"
| "find_index_of x (n # ns) k = (if node_id n = x then Some k else find_index_of x ns (Suc k))"

definition GetStateParamIndex :: "Proc \<Rightarrow> Node \<Rightarrow> Status + nat" where
  "GetStateParamIndex p param =
     (case find_index_of (node_id param) (state_params p) 0 of
        None \<Rightarrow> Inl (Status kInvalidArgument ''Given node is not a state parameter of this proc'')
      | Some i \<Rightarrow> Inr i)"

text \<open>
  Modelled from the spec: a node is dead when it has no user, is no next-state value and is
  not the next token.
\<close>

definition IsDead :: "Proc \<Rightarrow> Node \<Rightarrow> bool" where
  "IsDead p n \<longleftrightarrow>
     \<not> list_ex (\<lambda>u. node_id n \<in> set (operands u)) (proc_nodes p)
   \<and> node_id n \<notin> set (next_state p) \<and> node_id n \<noteq> next_token p"

text \<open>
  Modelled from the spec: \<open>ReplaceUsesWithNew<Literal>(value)\<close> creates a literal node of the
  value, which has to be of the type of the replaced node, and redirects every use of the
  replaced node (operands, next-state values, next token) to it.
\<close>

definition replace_id :: "nat \<Rightarrow> nat \<Rightarrow> nat \<Rightarrow> nat" where
  "replace_id old new x = (if x = old then new else x)"

definition ReplaceUsesWithNew_Literal :: "Proc \<Rightarrow> Node \<Rightarrow> Value \<Rightarrow> Status + Proc" where
  "ReplaceUsesWithNew_Literal p n v =
     (if TypeOfValue v \<noteq> node_type n then
        Inl (Status kInternal ''replacement type does not match'')
      else
        (let lit = \<lparr>node_id = next_node_id p,
                    node_name = ''literal.'' @ DecimalDigits (next_node_id p),
                    node_op = kLiteral, operands = [], node_type = TypeOfValue v,
                    channel = Inl (Status kInvalidArgument ''not a channel node''),
                    literal_value = Some v\<rparr>
         in Inr (p\<lparr>proc_nodes :=
                      map (\<lambda>u. u\<lparr>operands := map (replace_id (node_id n) (node_id lit)) (operands u)\<rparr>)
                        (proc_nodes p) @ [lit],
                    next_state := map (replace_id (node_id n) (node_id lit)) (next_state p),
                    next_token := replace_id (node_id n) (node_id lit) (next_token p),
                    next_node_id := Suc (next_node_id p),
                    proc_log := proc_log p @ [ReplaceUsesWithNewLiteral (node_id n) v]\<rparr>)))"

text \<open>
  Modelled from the spec: \<open>RemoveStateElement(i)\<close> removes the state parameter of index
  \<open>i\<close> with its next-state binding and its initial value; the elements above \<open>i\<close> move
  down by one.
\<close>

definition remove_nth :: "nat \<Rightarrow> 'a list \<Rightarrow> 'a list" where
  "remove_nth i xs = take i xs @ drop (Suc i) xs"

definition RemoveStateElement :: "Proc \<Rightarrow> nat \<Rightarrow> Status + Proc" where
  "RemoveStateElement p i =
     (if \<not> i < GetStateElementCount p then
        Inl (Status kInternal ''state element index out of range'')
      else
        Inr (p\<lparr>proc_nodes := filter (\<lambda>n. node_id n \<noteq> node_id (GetStateParam p i)) (proc_nodes p),
               state_params := remove_nth i (state_params p),
               next_state := remove_nth i (next_state p),
               init_values := remove_nth i (init_values p),
               proc_log := proc_log p @ [RemoveStateElementCall i]\<rparr>))"

subsection \<open>RemoveZeroWidthStateElements\<close>

text \<open>
  The first loop collects the zero-width indices from the highest to the lowest; the second
  replaces and removes each of them, in that order.
\<close>

fun down_from :: "nat \<Rightarrow> nat list" where
  "down_from 0 = []"
| "down_from (Suc n) = n # down_from n"

definition zero_width_indices :: "Proc \<Rightarrow> nat list" where
  "zero_width_indices p =
     filter (\<lambda>i. GetFlatBitCount (GetStateElementType p i) = 0) (down_from (GetStateElementCount p))"

fun remove_zero_width_loop :: "nat list \<Rightarrow> Proc \<Rightarrow> Status + Proc" where
  "remove_zero_width_loop [] p = Inr p"
| "remove_zero_width_loop (i # rest) p =
     (case ReplaceUsesWithNew_Literal p (GetStateParam p i) (ZeroOfType (GetStateElementType p i)) of
        Inl e \<Rightarrow> Inl e
      | Inr p1 \<Rightarrow>
          (case RemoveStateElement p1 i of
             Inl e \<Rightarrow> Inl e
           | Inr p2 \<Rightarrow> remove_zero_width_loop rest p2))"

definition RemoveZeroWidthStateElements :: "Proc \<Rightarrow> Status + bool \<times> Proc" where
  "RemoveZeroWidthStateElements p =
     (let to_remove = zero_width_indices p in
      if to_remove = [] then Inr (False, p)
      else (case remove_zero_width_loop to_remove p of
              Inl e \<Rightarrow> Inl e
            | Inr p' \<Rightarrow> Inr (True, p')))"

text \<open>What is left of a list after the removals at the indices \<open>zs\<close>, taken in order.\<close>

definition remove_indices :: "nat list \<Rightarrow> 'a list \<Rightarrow> 'a list" where
  "remove_indices zs xs = fold remove_nth zs xs"

text \<open>No node, next-state value or next token of the proc refers to one of the ids.\<close>

definition unused :: "Proc \<Rightarrow> nat set \<Rightarrow> bool" where
  "unused p ids \<longleftrightarrow>
     (\<forall>n \<in> set (proc_nodes p). set (operands n) \<inter> ids = {})
   \<and> set (next_state p) \<inter> ids = {} \<and> next_token p \<notin> ids"

subsection \<open>State dependencies\<close>

text \<open>
  Modelled from the spec: \<open>InlineBitmap\<close> (inline_bitmap.h), \<open>LeafTypeTree\<close>
  (leaf_type_tree.h) and \<open>DataFlowVisitor\<close> (dataflow_visitor.h) are not among the
  sources. A bitmap is a list of booleans, a leaf type tree the list of its leaf elements.
  \<open>proc->Accept(&visitor)\<close> visits every node after its operands; the model computes the
  value of a node from the values of its operands by recursion, bounded by the number of
  nodes of the proc (an operand chain longer than that is a cycle, which aborts). Every
  node but a state parameter takes \<open>DefaultHandler\<close>: the handlers that
  \<open>DataFlowVisitor\<close> refines for tuples and arrays are not among the sources and the
  operations of the model have none.
\<close>

type_synonym InlineBitmap = "bool list"

definition Bitmap_Union :: "InlineBitmap \<Rightarrow> InlineBitmap \<Rightarrow> InlineBitmap" where
  "Bitmap_Union a b = map (\<lambda>(x, y). x \<or> y) (zip a b)"

definition LeafTypeTree :: "Type \<Rightarrow> InlineBitmap \<Rightarrow> InlineBitmap list" where
  "LeafTypeTree t init = replicate (leaf_count t) init"

definition FlattenBitmaps :: "nat \<Rightarrow> InlineBitmap list \<Rightarrow> InlineBitmap" where
  "FlattenBitmaps n elements = fold (\<lambda>bitmap result. Bitmap_Union result bitmap) elements (replicate n False)"

definition find_node :: "Proc \<Rightarrow> nat \<Rightarrow> Node option" where
  "find_node p i = find (\<lambda>n. node_id n = i) (proc_nodes p)"

fun sequence :: "('e + 'a) list \<Rightarrow> 'e + 'a list" where
  "sequence [] = Inr []"
| "sequence (x # xs) =
     (case x of Inl e \<Rightarrow> Inl e
      | Inr v \<Rightarrow> (case sequence xs of Inl e \<Rightarrow> Inl e | Inr vs \<Rightarrow> Inr (v # vs)))"

fun StateDependencyVisitor :: "nat \<Rightarrow> Proc \<Rightarrow> nat \<Rightarrow> failure + InlineBitmap list" where
  "StateDependencyVisitor 0 p i = Inl Aborted"
| "StateDependencyVisitor (Suc fuel) p i =
     (case find_node p i of
        None \<Rightarrow> Inl Aborted
      | Some node \<Rightarrow>
          if node_op node = kParam \<and> node_id node \<noteq> node_id (token_param p) then
            (case GetStateParamIndex p node of
               Inl e \<Rightarrow> Inl (Failed e)
             | Inr index \<Rightarrow>
                 Inr (LeafTypeTree (node_type node)
                        ((replicate (GetStateElementCount p) False)[index := True])))
          else
            (case sequence (map (StateDependencyVisitor fuel p) (operands node)) of
               Inl e \<Rightarrow> Inl e
             | Inr operand_values \<Rightarrow>
                 Inr (LeafTypeTree (node_type node)
                        (FlattenBitmaps (GetStateElementCount p) (concat operand_values)))))"

definition FlattenNodeBitmaps :: "Proc \<Rightarrow> nat \<Rightarrow> failure + InlineBitmap" where
  "FlattenNodeBitmaps p i =
     (case StateDependencyVisitor (length (proc_nodes p)) p i of
        Inl e \<Rightarrow> Inl e
      | Inr elements \<Rightarrow> Inr (FlattenBitmaps (GetStateElementCount p) elements))"

fun state_dependencies_loop ::
  "Proc \<Rightarrow> Node list \<Rightarrow> (nat \<rightharpoonup> InlineBitmap) \<Rightarrow> failure + (nat \<rightharpoonup> InlineBitmap)" where
  "state_dependencies_loop p [] m = Inr m"
| "state_dependencies_loop p (node # rest) m =
     (case FlattenNodeBitmaps p (node_id node) of
        Inl e \<Rightarrow> Inl e
      | Inr bitmap \<Rightarrow>
          state_dependencies_loop p rest
            (case m (node_id node) of None \<Rightarrow> m(node_id node \<mapsto> bitmap) | Some b \<Rightarrow> m))"

definition ComputeStateDependencies :: "Proc \<Rightarrow> failure + (nat \<rightharpoonup> InlineBitmap)" where
  "ComputeStateDependencies p = state_dependencies_loop p (proc_nodes p) Map.empty"

subsection \<open>RemoveUnobservableStateElements\<close>

text \<open>
  Modelled from the spec: \<open>UnionFind\<close> (union_find.h) is not among the sources. The
  model is the list of the representatives of the inserted elements \<open>0, 1, ...\<close>;
  \<open>Union(a, b)\<close> gives the class of \<open>a\<close> the representative of the class of \<open>b\<close>.
\<close>

type_synonym UnionFind = "nat list"

definition UnionFind_Insert :: "UnionFind \<Rightarrow> nat \<Rightarrow> UnionFind" where
  "UnionFind_Insert uf i = uf @ [i]"

definition UnionFind_Find :: "UnionFind \<Rightarrow> nat \<Rightarrow> nat" where
  "UnionFind_Find uf i = uf ! i"

definition UnionFind_Union :: "UnionFind \<Rightarrow> nat \<Rightarrow> nat \<Rightarrow> UnionFind" where
  "UnionFind_Union uf a b = map (\<lambda>r. if r = uf ! a then uf ! b else r) uf"

definition next_state_indices :: "Proc \<Rightarrow> nat \<Rightarrow> nat list" where
  "next_state_indices p node =
     filter (\<lambda>i. GetNextStateElement p i = node) [0..<GetStateElementCount p]"

definition Bitmap_Get :: "InlineBitmap \<Rightarrow> nat \<Rightarrow> bool" where
  "Bitmap_Get b i = b ! i"

fun side_effect_loop ::
  "InlineBitmap \<Rightarrow> nat list \<Rightarrow> UnionFind \<times> nat option \<Rightarrow> UnionFind \<times> nat option" where
  "side_effect_loop deps [] st = st"
| "side_effect_loop deps (i # rest) (state_components, observable_state_index) =
     (if Bitmap_Get deps i then
        (case observable_state_index of
           None \<Rightarrow> side_effect_loop deps rest (state_components, Some i)
         | Some obs \<Rightarrow>
             side_effect_loop deps rest (UnionFind_Union state_components i obs, Some obs))
      else side_effect_loop deps rest (state_components, observable_state_index))"

fun next_state_inner_loop :: "InlineBitmap \<Rightarrow> nat \<Rightarrow> nat list \<Rightarrow> UnionFind \<Rightarrow> UnionFind" where
  "next_state_inner_loop deps next_state_index [] state_components = state_components"
| "next_state_inner_loop deps next_state_index (i # rest) state_components =
     (if Bitmap_Get deps i then
        next_state_inner_loop deps next_state_index rest
          (UnionFind_Union state_components i next_state_index)
      else next_state_inner_loop deps next_state_index rest state_components)"

fun next_state_loop :: "InlineBitmap \<Rightarrow> nat \<Rightarrow> nat list \<Rightarrow> UnionFind \<Rightarrow> UnionFind" where
  "next_state_loop deps n [] state_components = state_components"
| "next_state_loop deps n (next_state_index # rest) state_components =
     next_state_loop deps n rest
       (next_state_inner_loop deps next_state_index [0..<n] state_components)"

fun merge_loop ::
  "Proc \<Rightarrow> (nat \<rightharpoonup> InlineBitmap) \<Rightarrow> Node list \<Rightarrow> UnionFind \<times> nat option
     \<Rightarrow> (UnionFind \<times> nat option) option" where
  "merge_loop p state_dependencies [] st = Some st"
| "merge_loop p state_dependencies (node # rest) (state_components, observable_state_index) =
     (case state_dependencies (node_id node) of
        None \<Rightarrow> None
      | Some deps \<Rightarrow>
          (let st1 =
                 (if OpIsSideEffecting (node_op node) \<and> node_op node \<noteq> kParam then
                    side_effect_loop deps [0..<GetStateElementCount p]
                      (state_components, observable_state_index)
                  else (state_components, observable_state_index));
               st2 =
                 (if next_state_indices p (node_id node) \<noteq> [] then
                    (next_state_loop deps (GetStateElementCount p)
                       (next_state_indices p (node_id node)) (fst st1), snd st1)
                  else st1)
           in merge_loop p state_dependencies rest st2))"

definition unobservable_indices :: "Proc \<Rightarrow> UnionFind \<Rightarrow> nat option \<Rightarrow> nat list" where
  "unobservable_indices p state_components observable_state_index =
     filter (\<lambda>i. observable_state_index = None
                 \<or> UnionFind_Find state_components i \<noteq> the observable_state_index)
       (down_from (GetStateElementCount p))"

fun replace_dead_loop :: "nat list \<Rightarrow> Proc \<Rightarrow> Status + Proc" where
  "replace_dead_loop [] p = Inr p"
| "replace_dead_loop (i # rest) p =
     (let state_param = GetStateParam p i in
      if \<not> IsDead p state_param then
        (case ReplaceUsesWithNew_Literal p state_param (ZeroOfType (node_type state_param)) of
           Inl e \<Rightarrow> Inl e
         | Inr p' \<Rightarrow> replace_dead_loop rest p')
      else replace_dead_loop rest p)"

fun remove_loop :: "nat list \<Rightarrow> Proc \<Rightarrow> Status + Proc" where
  "remove_loop [] p = Inr p"
| "remove_loop (i # rest) p =
     (case RemoveStateElement p i of
        Inl e \<Rightarrow> Inl e
      | Inr p' \<Rightarrow> remove_loop rest p')"

text \<open>
  The first half of \<open>RemoveUnobservableStateElements\<close>, up to the list \<open>to_remove\<close>.
  \<open>state_dependencies.at(node)\<close> aborts for a node that is not in the map.
\<close>

definition ObservabilityAnalysis :: "Proc \<Rightarrow> failure + nat list" where
  "ObservabilityAnalysis p =
     (case ComputeStateDependencies p of
        Inl e \<Rightarrow> Inl e
      | Inr state_dependencies \<Rightarrow>
          (case merge_loop p state_dependencies (proc_nodes p)
                  (fold (\<lambda>i uf. UnionFind_Insert uf i) [0..<GetStateElementCount p] [], None) of
             None \<Rightarrow> Inl Aborted
           | Some (state_components, observable_state_index) \<Rightarrow>
               Inr (unobservable_indices p state_components
                      (map_option (UnionFind_Find state_components) observable_state_index))))"

definition RemoveUnobservableStateElements :: "Proc \<Rightarrow> failure + bool \<times> Proc" where
  "RemoveUnobservableStateElements p =
     (case ObservabilityAnalysis p of
        Inl e \<Rightarrow> Inl e
      | Inr to_remove \<Rightarrow>
          if to_remove = [] then Inr (False, p)
          else
            (case replace_dead_loop to_remove p of
               Inl e \<Rightarrow> Inl (Failed e)
             | Inr p1 \<Rightarrow>
                 (case remove_loop to_remove p1 of
                    Inl e \<Rightarrow> Inl (Failed e)
                  | Inr p2 \<Rightarrow> Inr (True, p2))))"

definition RunOnProcInternal :: "Proc \<Rightarrow> failure + bool \<times> Proc" where
  "RunOnProcInternal p =
     (case RemoveZeroWidthStateElements p of
        Inl e \<Rightarrow> Inl (Failed e)
      | Inr (zero_width_changed, p1) \<Rightarrow>
          (case RemoveUnobservableStateElements p1 of
             Inl e \<Rightarrow> Inl e
           | Inr (unobservable_changed, p2) \<Rightarrow>
               Inr (zero_width_changed \<or> unobservable_changed, p2)))"

subsection \<open>Observability, as the claim states it and as the pass computes it\<close>

text \<open>The state dependencies of a proc (no entries when their computation fails).\<close>

definition StateDependencies :: "Proc \<Rightarrow> (nat \<rightharpoonup> InlineBitmap)" where
  "StateDependencies p =
     (case ComputeStateDependencies p of Inl e \<Rightarrow> Map.empty | Inr state_dependencies \<Rightarrow> state_dependencies)"

text \<open>
  \<open>observable\<close> follows the comment of \<open>RemoveUnobservableStateElements\<close> (and the
  specification): an element is observable when a side-effecting node that is not a
  parameter depends on it, or the next-state value of an observable element depends on it.
  \<open>linked_to_observed\<close> is the relation the union-find computes: the dependence between an
  element and a next-state value is followed in both directions.
\<close>

definition bitmap_contains :: "(nat \<rightharpoonup> InlineBitmap) \<Rightarrow> Node \<Rightarrow> nat \<Rightarrow> bool" where
  "bitmap_contains state_dependencies node i =
     (case state_dependencies (node_id node) of None \<Rightarrow> False | Some b \<Rightarrow> Bitmap_Get b i)"

definition side_effect_depends_on :: "Proc \<Rightarrow> (nat \<rightharpoonup> InlineBitmap) \<Rightarrow> nat \<Rightarrow> bool" where
  "side_effect_depends_on p state_dependencies i \<longleftrightarrow>
     list_ex (\<lambda>node. OpIsSideEffecting (node_op node) \<and> node_op node \<noteq> kParam
                     \<and> bitmap_contains state_dependencies node i) (proc_nodes p)"

definition next_state_depends_on :: "Proc \<Rightarrow> (nat \<rightharpoonup> InlineBitmap) \<Rightarrow> nat \<Rightarrow> nat \<Rightarrow> bool" where
  "next_state_depends_on p state_dependencies k i \<longleftrightarrow>
     k < GetStateElementCount p \<and> i < GetStateElementCount p
   \<and> list_ex (\<lambda>node. node_id node = GetNextStateElement p k
                     \<and> bitmap_contains state_dependencies node i) (proc_nodes p)"

definition observable :: "Proc \<Rightarrow> (nat \<rightharpoonup> InlineBitmap) \<Rightarrow> nat \<Rightarrow> bool" where
  "observable p state_dependencies i \<longleftrightarrow>
     (\<exists>s. s < GetStateElementCount p \<and> side_effect_depends_on p state_dependencies s
          \<and> (next_state_depends_on p state_dependencies)\<^sup>*\<^sup>* s i)"

definition linked :: "Proc \<Rightarrow> (nat \<rightharpoonup> InlineBitmap) \<Rightarrow> nat \<Rightarrow> nat \<Rightarrow> bool" where
  "linked p state_dependencies a b \<longleftrightarrow>
     next_state_depends_on p state_dependencies a b \<or> next_state_depends_on p state_dependencies b a"

definition linked_to_observed :: "Proc \<Rightarrow> (nat \<rightharpoonup> InlineBitmap) \<Rightarrow> nat \<Rightarrow> bool" where
  "linked_to_observed p state_dependencies i \<longleftrightarrow>
     (\<exists>s. s < GetStateElementCount p \<and> side_effect_depends_on p state_dependencies s
          \<and> (linked p state_dependencies)\<^sup>*\<^sup>* s i)"

definition retained_indices :: "Proc \<Rightarrow> nat list \<Rightarrow> nat list" where
  "retained_indices p to_remove = filter (\<lambda>i. i \<notin> set to_remove) [0..<GetStateElementCount p]"

text \<open>
  The invariant of the merging loop: two elements of one class of the union-find are
  connected by \<open>merged\<close>, and the observable index, when there is one, is an element a
  side-effecting node depends on.
\<close>

definition uf_sound :: "nat \<Rightarrow> (nat \<Rightarrow> nat \<Rightarrow> bool) \<Rightarrow> UnionFind \<Rightarrow> bool" where
  "uf_sound n conn uf \<longleftrightarrow>
     length uf = n \<and> (\<forall>i<n. \<forall>j<n. uf ! i = uf ! j \<longrightarrow> conn i j)"

definition merged :: "Proc \<Rightarrow> (nat \<rightharpoonup> InlineBitmap) \<Rightarrow> nat \<Rightarrow> nat \<Rightarrow> bool" where
  "merged p sd = (\<lambda>x y. linked p sd x y
                       \<or> (x < GetStateElementCount p \<and> side_effect_depends_on p sd x
                          \<and> y < GetStateElementCount p \<and> side_effect_depends_on p sd y))\<^sup>*\<^sup>*"

definition merge_inv :: "Proc \<Rightarrow> (nat \<rightharpoonup> InlineBitmap) \<Rightarrow> UnionFind \<times> nat option \<Rightarrow> bool" where
  "merge_inv p sd st \<longleftrightarrow>
     uf_sound (GetStateElementCount p) (merged p sd) (fst st)
   \<and> (\<forall>obs. snd st = Some obs \<longrightarrow> obs < GetStateElementCount p \<and> side_effect_depends_on p sd obs)"

subsection \<open>Example procs\<close>

definition example_node :: "nat \<Rightarrow> string \<Rightarrow> Op \<Rightarrow> nat list \<Rightarrow> Type \<Rightarrow> Node" where
  "example_node i nm o' ops t =
     \<lparr>node_id = i, node_name = nm, node_op = o', operands = ops, node_type = t,
      channel = Inl (Status kInvalidArgument ''not a channel node''), literal_value = None\<rparr>"

text \<open>
  Three state elements \<open>x\<close>, \<open>y\<close>, \<open>z\<close>: a send sends \<open>x\<close>, the next state of \<open>x\<close> is
  \<open>x\<close>, of \<open>y\<close> is \<open>y\<close>, and of \<open>z\<close> is \<open>x + y\<close>.
\<close>

definition example_three_states :: Proc where
  "example_three_states =
     \<lparr>proc_nodes =
        [example_node 1 ''tkn'' kParam [] TokenType,
         example_node 2 ''x'' kParam [] (BitsType 8),
         example_node 3 ''y'' kParam [] (BitsType 8),
         example_node 4 ''z'' kParam [] (BitsType 8),
         example_node 5 ''add'' kAdd [2, 3] (BitsType 8),
         (example_node 6 ''snd'' kSend [1, 2] TokenType)\<lparr>channel := Inr ''out''\<rparr>],
      token_param = example_node 1 ''tkn'' kParam [] TokenType,
      next_token = 6,
      state_params =
        [example_node 2 ''x'' kParam [] (BitsType 8),
         example_node 3 ''y'' kParam [] (BitsType 8),
         example_node 4 ''z'' kParam [] (BitsType 8)],
      next_state = [2, 3, 5],
      init_values = [BitsValue 8 0, BitsValue 8 0, BitsValue 8 0],
      next_node_id = 7,
      proc_log = []\<rparr>"

text \<open>
  Three state elements \<open>a\<close> (of width 0), \<open>b\<close>, \<open>y\<close>: a send sends \<open>b\<close>, the next state
  of \<open>b\<close> is the concatenation of \<open>a\<close> and \<open>b\<close>, the next state of \<open>y\<close> is \<open>y\<close>.
\<close>

definition example_zero_width :: Proc where
  "example_zero_width =
     \<lparr>proc_nodes =
        [example_node 1 ''tkn'' kParam [] TokenType,
         example_node 2 ''a'' kParam [] (BitsType 0),
         example_node 3 ''b'' kParam [] (BitsType 8),
         example_node 4 ''y'' kParam [] (BitsType 8),
         example_node 5 ''cat'' kConcat [2, 3] (BitsType 8),
         (example_node 6 ''snd'' kSend [1, 3] TokenType)\<lparr>channel := Inr ''out''\<rparr>],
      token_param = example_node 1 ''tkn'' kParam [] TokenType,
      next_token = 6,
      state_params =
        [example_node 2 ''a'' kParam [] (BitsType 0),
         example_node 3 ''b'' kParam [] (BitsType 8),
         example_node 4 ''y'' kParam [] (BitsType 8)],
      next_state = [2, 5, 4],
      init_values = [BitsValue 0 0, BitsValue 8 0, BitsValue 8 0],
      next_node_id = 7,
      proc_log = []\<rparr>"

section \<open>Examples for the scheduler\<close>

text \<open>
  The nodes of a proc that receives a value and sends it on: a token parameter, a
  receive, the received data, a send. Bounds that are the same for every node. A solver
  stand-in that answers with a given status and a solution in which the send is at
  \<open>send_cycle\<close>, the data at \<open>data_cycle\<close> and everything else at 0. A delay estimator
  that gives every node 100ps.
\<close>

definition example_tkn :: Node where
  "example_tkn = \<lparr>node_id = 1, node_name = ''tkn'', node_op = kParam, operands = [],
     node_type = TokenType, channel = Inl (Status kInvalidArgument ''not a channel node''),
     literal_value = None\<rparr>"

definition example_rcv :: Node where
  "example_rcv = \<lparr>node_id = 2, node_name = ''rcv'', node_op = kReceive, operands = [1],
     node_type = TupleType [TokenType, BitsType 8], channel = Inr ''in'', literal_value = None\<rparr>"

definition example_data :: Node where
  "example_data = \<lparr>node_id = 3, node_name = ''data'', node_op = kTupleIndex, operands = [2],
     node_type = BitsType 8, channel = Inl (Status kInvalidArgument ''not a channel node''),
     literal_value = None\<rparr>"

definition example_snd :: Node where
  "example_snd = \<lparr>node_id = 4, node_name = ''snd'', node_op = kSend, operands = [1, 3],
     node_type = TokenType, channel = Inr ''out'', literal_value = None\<rparr>"

definition example_proc_nodes :: FunctionBase where
  "example_proc_nodes =
     \<lparr>fb_nodes = [example_tkn, example_rcv, example_data, example_snd], fb_implicit_use = [4]\<rparr>"

definition example_bounds :: "int \<Rightarrow> int \<Rightarrow> ScheduleBounds" where
  "example_bounds l u = \<lparr>bounds_lb = (\<lambda>_. l), bounds_ub = (\<lambda>_. u)\<rparr>"

text \<open>
  Bounds that leave the send (node 4) the cycle 3 only, and every other node the cycles 0
  to 2.
\<close>

definition example_bounds_late_send :: ScheduleBounds where
  "example_bounds_late_send =
     \<lparr>bounds_lb = (\<lambda>i. if i = 4 then 3 else 0), bounds_ub = (\<lambda>i. if i = 4 then 3 else 2)\<rparr>"

definition example_solver :: "ResultStatus \<Rightarrow> real \<Rightarrow> real \<Rightarrow> sdc_env" where
  "example_solver status send_cycle data_cycle =
     \<lparr>CreateSolver = True,
      Solve = (\<lambda>s. (status,
                 (\<lambda>v. 0)(cycle_var 3 := data_cycle, cycle_var 4 := send_cycle,
                          cycle_at_sinknode := send_cycle,
                          lifetime_var 1 := send_cycle, lifetime_var 2 := data_cycle,
                          lifetime_var 3 := send_cycle - data_cycle))),
      TopoSort = fb_nodes\<rparr>"

definition example_delay :: "Node \<Rightarrow> Status + int" where
  "example_delay n = Inr 100"

text \<open>
  Three nodes of delay 6: \<open>x\<close> has the operand \<open>a\<close>, and \<open>b\<close> the operands \<open>a\<close> and \<open>x\<close>, in
  that order. The longest path from \<open>a\<close> to \<open>b\<close> goes through \<open>x\<close> and has the weight 18.
  In \<open>example_graph_swapped\<close> the operands of \<open>b\<close> are \<open>x\<close> and \<open>a\<close>, in that order.
\<close>

definition example_node_a :: Node where
  "example_node_a = \<lparr>node_id = 10, node_name = ''a'', node_op = kLiteral, operands = [],
     node_type = BitsType 8, channel = Inl (Status kInvalidArgument ''not a channel node''),
     literal_value = Some (BitsValue 8 0)\<rparr>"

definition example_node_x :: Node where
  "example_node_x = \<lparr>node_id = 11, node_name = ''x'', node_op = kIdentity, operands = [10],
     node_type = BitsType 8, channel = Inl (Status kInvalidArgument ''not a channel node''),
     literal_value = None\<rparr>"

definition example_node_b :: Node where
  "example_node_b = \<lparr>node_id = 12, node_name = ''b'', node_op = kAdd, operands = [10, 11],
     node_type = BitsType 8, channel = Inl (Status kInvalidArgument ''not a channel node''),
     literal_value = None\<rparr>"

definition example_graph :: FunctionBase where
  "example_graph =
     \<lparr>fb_nodes = [example_node_a, example_node_x, example_node_b], fb_implicit_use = [12]\<rparr>"

definition example_graph_swapped :: FunctionBase where
  "example_graph_swapped =
     \<lparr>fb_nodes = [example_node_a, example_node_x, example_node_b\<lparr>operands := [11, 10]\<rparr>],
      fb_implicit_use = [12]\<rparr>"

definition example_graph_delay :: DelayMap where
  "example_graph_delay = [10 \<mapsto> 6, 11 \<mapsto> 6, 12 \<mapsto> 6]"

section \<open>Identifier sanitisation: proofs\<close>

lemma in_range_upt: "(a \<le> n \<and> n \<le> b) \<longleftrightarrow> n \<in> set [a..<Suc b]"
  by auto

lemma of_char_in_set: "(of_char c :: nat) \<in> set ns \<Longrightarrow> c \<in> set (map char_of ns)"
  by force

lemma digit_chars: "map char_of [48..<Suc 57 :: nat] = ''0123456789''"
  by code_simp

lemma upper_chars: "map char_of [65..<Suc 90 :: nat] = ''ABCDEFGHIJKLMNOPQRSTUVWXYZ''"
  by code_simp

lemma lower_chars: "map char_of [97..<Suc 122 :: nat] = ''abcdefghijklmnopqrstuvwxyz''"
  by code_simp

lemma ascii_isdigit_iff: "ascii_isdigit c \<longleftrightarrow> c \<in> set ''0123456789''"
proof
  assume "ascii_isdigit c"
  then have "(of_char c :: nat) \<in> set [48..<Suc 57]"
    unfolding ascii_isdigit_def in_range_upt .
  from of_char_in_set[OF this] show "c \<in> set ''0123456789''"
    unfolding digit_chars .
next
  assume "c \<in> set ''0123456789''"
  then show "ascii_isdigit c"
    by (auto simp: ascii_isdigit_def)
qed

lemma ascii_isalpha_iff:
  "ascii_isalpha c \<longleftrightarrow>
     c \<in> set ''ABCDEFGHIJKLMNOPQRSTUVWXYZ'' \<or> c \<in> set ''abcdefghijklmnopqrstuvwxyz''"
proof
  assume "ascii_isalpha c"
  then consider "(of_char c :: nat) \<in> set [65..<Suc 90]" | "(of_char c :: nat) \<in> set [97..<Suc 122]"
    unfolding ascii_isalpha_def in_range_upt by blast
  then show "c \<in> set ''ABCDEFGHIJKLMNOPQRSTUVWXYZ'' \<or> c \<in> set ''abcdefghijklmnopqrstuvwxyz''"
  proof cases
    case 1
    from of_char_in_set[OF this] show ?thesis unfolding upper_chars by blast
  next
    case 2
    from of_char_in_set[OF this] show ?thesis unfolding lower_chars by blast
  qed
next
  assume "c \<in> set ''ABCDEFGHIJKLMNOPQRSTUVWXYZ'' \<or> c \<in> set ''abcdefghijklmnopqrstuvwxyz''"
  then show "ascii_isalpha c"
    by (auto simp: ascii_isalpha_def)
qed

lemma underscore_not_alnum: "\<not> ascii_isalnum (CHR ''_'')"
  by (simp add: ascii_isalnum_def ascii_isalpha_def ascii_isdigit_def)

lemma underscore_not_digit: "\<not> ascii_isdigit (CHR ''_'')"
  by (simp add: ascii_isdigit_def)

lemma sanitize_char_ok: "ascii_isalnum (sanitize_char c) \<or> sanitize_char c = CHR ''_''"
  by (simp add: sanitize_char_def)

lemma sanitize_char_idem: "sanitize_char (sanitize_char c) = sanitize_char c"
  by (simp add: sanitize_char_def underscore_not_alnum)

lemma sanitize_char_digit: "ascii_isdigit (sanitize_char c) \<longleftrightarrow> ascii_isdigit c"
  by (auto simp: sanitize_char_def underscore_not_digit ascii_isalnum_def)

lemma sanitize_loop_eq:
  "sanitize_loop i s = take i s @ map sanitize_char (drop i s)"
proof (induction i s rule: sanitize_loop.induct)
  case (1 i s)
  show ?case
  proof (cases "i < length s")
    case False
    then show ?thesis by simp
  next
    case True
    let ?s' = "if \<not> ascii_isalnum (s ! i) then s[i := CHR ''_''] else s"
    have step: "sanitize_loop i s = take (Suc i) ?s' @ map sanitize_char (drop (Suc i) ?s')"
      using "1.IH"[OF True] True by (simp del: sanitize_loop.simps add: sanitize_loop.simps[of i s])
    have len: "length ?s' = length s" by simp
    have tk: "take (Suc i) ?s' = take i s @ [sanitize_char (s ! i)]"
      using True by (simp add: take_Suc_conv_app_nth sanitize_char_def)
    have dr: "drop (Suc i) ?s' = drop (Suc i) s"
      by simp
    have "drop i s = s ! i # drop (Suc i) s"
      using True by (simp add: Cons_nth_drop_Suc)
    then show ?thesis
      using step tk dr by simp
  qed
qed

lemma sanitize_loop_map: "sanitize_loop 0 s = map sanitize_char s"
  by (simp add: sanitize_loop_eq del: sanitize_loop.simps)

lemma SanitizeIdentifier_eq:
  "SanitizeIdentifier s =
     (case s of [] \<Rightarrow> ''_''
      | c # cs \<Rightarrow> if ascii_isdigit c then CHR ''_'' # map sanitize_char s
                  else map sanitize_char s)"
  by (cases s) (simp_all add: SanitizeIdentifier_def sanitize_loop_map sanitize_char_def
      underscore_not_alnum del: sanitize_loop.simps)


text \<open>
  C9. For every input string \<open>s\<close>, \<open>SanitizeIdentifier s\<close> contains only characters of
  \<open>[A-Za-z0-9_]\<close> and does not start with a digit (it is never empty); the empty string
  maps to \<open>_\<close>; an input whose first character is a digit is prefixed with \<open>_\<close>; every
  non-alphanumeric character is replaced by \<open>_\<close> and every other character is kept.
  Being a function of its argument alone, the result is the same for identical inputs.
\<close>

theorem SanitizeIdentifier_valid:
  "(\<forall>c \<in> set (SanitizeIdentifier s).
       c \<in> set ''ABCDEFGHIJKLMNOPQRSTUVWXYZabcdefghijklmnopqrstuvwxyz0123456789_'')
   \<and> SanitizeIdentifier s \<noteq> []
   \<and> \<not> ascii_isdigit (hd (SanitizeIdentifier s))
   \<and> SanitizeIdentifier [] = ''_''
   \<and> (s \<noteq> [] \<and> ascii_isdigit (hd s) \<longrightarrow>
        SanitizeIdentifier s = CHR ''_'' # map (\<lambda>c. if ascii_isalnum c then c else CHR ''_'') s)
   \<and> (s \<noteq> [] \<and> \<not> ascii_isdigit (hd s) \<longrightarrow>
        SanitizeIdentifier s = map (\<lambda>c. if ascii_isalnum c then c else CHR ''_'') s)"
proof -
  have fn: "(\<lambda>c. if ascii_isalnum c then c else CHR ''_'') = sanitize_char"
    by (auto simp: sanitize_char_def)
  have cls: "c \<in> set ''ABCDEFGHIJKLMNOPQRSTUVWXYZabcdefghijklmnopqrstuvwxyz0123456789_''"
    if "ascii_isalnum c \<or> c = CHR ''_''" for c
    using that unfolding ascii_isalnum_def ascii_isalpha_iff ascii_isdigit_iff by auto
  have chars: "\<forall>c \<in> set (SanitizeIdentifier s). ascii_isalnum c \<or> c = CHR ''_''"
    using sanitize_char_ok by (cases s) (auto simp: SanitizeIdentifier_eq)
  have c1: "\<forall>c \<in> set (SanitizeIdentifier s).
       c \<in> set ''ABCDEFGHIJKLMNOPQRSTUVWXYZabcdefghijklmnopqrstuvwxyz0123456789_''"
    using chars cls by blast
  have c2: "SanitizeIdentifier s \<noteq> []"
    by (cases s) (simp_all add: SanitizeIdentifier_eq)
  have c3: "\<not> ascii_isdigit (hd (SanitizeIdentifier s))"
    by (cases s) (simp_all add: SanitizeIdentifier_eq underscore_not_digit sanitize_char_digit)
  have c4: "SanitizeIdentifier [] = ''_''"
    by (simp add: SanitizeIdentifier_eq)
  have c5: "s \<noteq> [] \<and> ascii_isdigit (hd s) \<longrightarrow>
        SanitizeIdentifier s = CHR ''_'' # map sanitize_char s"
    by (cases s) (simp_all add: SanitizeIdentifier_eq)
  have c6: "s \<noteq> [] \<and> \<not> ascii_isdigit (hd s) \<longrightarrow>
        SanitizeIdentifier s = map sanitize_char s"
    by (cases s) (simp_all add: SanitizeIdentifier_eq)
  show ?thesis
    unfolding fn using c1 c2 c3 c4 c5 c6 by blast
qed

theorem SanitizeIdentifier_valid_witness:
  "SanitizeIdentifier ''9 lives'' = ''_9_lives''
   \<and> SanitizeIdentifier ''a.b[3]'' = ''a_b_3_''
   \<and> ascii_isdigit (hd ''9 lives'') \<and> \<not> ascii_isdigit (hd ''a.b[3]'')
   \<and> set (SanitizeIdentifier ''9 lives'')
         \<subseteq> set ''ABCDEFGHIJKLMNOPQRSTUVWXYZabcdefghijklmnopqrstuvwxyz0123456789_''"
  using SanitizeIdentifier_valid[of "''9 lives''"] SanitizeIdentifier_valid[of "''a.b[3]''"]
  by (simp add: ascii_isdigit_def ascii_isalnum_def ascii_isalpha_def subset_eq)


text \<open>
  C10. \<open>SanitizeIdentifier\<close> is idempotent: sanitising a sanitised identifier returns it
  unchanged.
\<close>

theorem SanitizeIdentifier_idempotent:
  "SanitizeIdentifier (SanitizeIdentifier s) = SanitizeIdentifier s"
proof (cases s)
  case Nil
  then show ?thesis
    by (simp add: SanitizeIdentifier_eq underscore_not_digit sanitize_char_def underscore_not_alnum)
next
  case (Cons c cs)
  have idem: "map sanitize_char (map sanitize_char xs) = map sanitize_char xs" for xs
    by (simp add: sanitize_char_idem)
  have us: "sanitize_char (CHR ''_'') = CHR ''_''"
    by (simp add: sanitize_char_def)
  show ?thesis
  proof (cases "ascii_isdigit c")
    case True
    then show ?thesis
      using Cons by (simp add: SanitizeIdentifier_eq underscore_not_digit us sanitize_char_idem)
  next
    case False
    then show ?thesis
      using Cons by (simp add: SanitizeIdentifier_eq sanitize_char_digit sanitize_char_idem)
  qed
qed


section \<open>Expression emission: proofs\<close>

lemma ParenWrap_neq: "ParenWrap s \<noteq> s"
proof
  assume "ParenWrap s = s"
  then have "length (ParenWrap s) = length s" by simp
  then show False by (simp add: ParenWrap_def)
qed

lemma IsLiteralWithValue_zero:
  "IsLiteralWithValue e 0 \<longleftrightarrow> (\<exists>b fmt c. e = Literal b fmt c \<and> bits_value b = 0)"
  by (cases e) (auto simp: Literal_IsLiteralWithValue_def FitsInUint64_def)

lemma IsScalarLogicRef_iff:
  "IsScalarLogicRef X e \<longleftrightarrow> (\<exists>name dt. e = LogicRef name dt \<and> IsScalar X dt)"
  by (cases e) auto


text \<open>
  C7. When the subject of an \<open>Index\<close> or a \<open>Slice\<close> is a reference whose declared type is
  scalar: with the index (for a slice, both bounds) a literal of value 0, the emission is
  exactly the emission of the subject, which is the name of the signal; with any other
  index, or a bound that is not a literal of value 0, the emission fails (the check
  aborts) and no string is produced. "A literal of value 0" is a \<open>Literal\<close> node whose
  bits are zero, whatever its width and format.
\<close>

theorem scalar_Index_Slice_Emit:
  assumes "IsScalarLogicRef X subject"
  shows "(\<exists>name dt. subject = LogicRef name dt \<and> Emit X subject = Inr name)
       \<and> (IsLiteralWithValue index 0 \<longrightarrow> Emit X (Index subject index) = Emit X subject)
       \<and> (\<not> IsLiteralWithValue index 0 \<longrightarrow> Emit X (Index subject index) = Inl CheckFailure)
       \<and> (IsLiteralWithValue hi 0 \<and> IsLiteralWithValue lo 0 \<longrightarrow>
            Emit X (Slice subject hi lo) = Emit X subject)
       \<and> (\<not> (IsLiteralWithValue hi 0 \<and> IsLiteralWithValue lo 0) \<longrightarrow>
            Emit X (Slice subject hi lo) = Inl CheckFailure)
       \<and> (IsLiteralWithValue index 0 \<longleftrightarrow>
            (\<exists>b fmt c. index = Literal b fmt c \<and> bits_value b = 0))"
proof -
  from assms obtain name dt where subj: "subject = LogicRef name dt"
    by (auto simp: IsScalarLogicRef_iff)
  have a: "\<exists>name dt. subject = LogicRef name dt \<and> Emit X subject = Inr name"
    using subj by simp
  have b: "IsLiteralWithValue index 0 \<longrightarrow> Emit X (Index subject index) = Emit X subject"
    using assms by simp
  have c: "\<not> IsLiteralWithValue index 0 \<longrightarrow> Emit X (Index subject index) = Inl CheckFailure"
    using assms by simp
  have d: "IsLiteralWithValue hi 0 \<and> IsLiteralWithValue lo 0 \<longrightarrow>
            Emit X (Slice subject hi lo) = Emit X subject"
    using assms by simp
  have e: "\<not> (IsLiteralWithValue hi 0 \<and> IsLiteralWithValue lo 0) \<longrightarrow>
            Emit X (Slice subject hi lo) = Inl CheckFailure"
    using assms by simp
  show ?thesis
    using a b c d e IsLiteralWithValue_zero[of index] by blast
qed

theorem scalar_Index_Slice_Emit_witness:
  "IsScalarLogicRef verilog_h (LogicRef ''r'' scalar_type)
   \<and> Emit verilog_h (Index (LogicRef ''r'' scalar_type) (PlainLiteral 0)) = Inr ''r''
   \<and> Emit verilog_h (Slice (LogicRef ''r'' scalar_type) (PlainLiteral 0) (PlainLiteral 0)) = Inr ''r''
   \<and> Emit verilog_h (Index (LogicRef ''r'' scalar_type) (PlainLiteral 1)) = Inl CheckFailure
   \<and> Emit verilog_h (Slice (LogicRef ''r'' scalar_type) (PlainLiteral 1) (PlainLiteral 0))
       = Inl CheckFailure"
proof -
  have s: "IsScalarLogicRef verilog_h (LogicRef ''r'' scalar_type)"
    by (simp add: verilog_h_def scalar_type_def)
  have z: "IsLiteralWithValue (PlainLiteral 0 :: SignalType Expression) 0"
    by (simp add: PlainLiteral_def Literal_IsLiteralWithValue_def FitsInUint64_def)
  have n: "\<not> IsLiteralWithValue (PlainLiteral 1 :: SignalType Expression) 0"
    by (simp add: PlainLiteral_def Literal_IsLiteralWithValue_def FitsInUint64_def)
  show ?thesis
    using s z n
      scalar_Index_Slice_Emit[OF s, of "PlainLiteral 0" "PlainLiteral 0" "PlainLiteral 0"]
      scalar_Index_Slice_Emit[OF s, of "PlainLiteral 1" "PlainLiteral 1" "PlainLiteral 0"]
    by simp
qed


text \<open>
  C8. In the emission of a binary infix operator the left operand is wrapped in
  parentheses iff its precedence is strictly less than the operator's or it is a unary
  reduction, and the right operand iff its precedence is less than or equal to the
  operator's or it is a unary reduction: the precedence rule decides for every operand
  that is not a unary reduction, and a unary reduction is always wrapped. In the emission
  of a unary operator the operand is wrapped iff its precedence is strictly less or it is
  itself a unary operator: a unary nested directly in a unary is always wrapped. Wrapping
  changes the text: \<open>ParenWrap s\<close> is never \<open>s\<close>.
\<close>

theorem BinaryInfix_Unary_parentheses:
  assumes "Emit X lhs = Inr l" and "Emit X rhs = Inr r" and "Emit X arg = Inr a"
  shows "Emit X (BinaryInfix lhs op rhs) =
           Inr ((if precedence X lhs < precedence X (BinaryInfix lhs op rhs)
                    \<or> (IsUnary lhs \<and> IsReduction X lhs)
                 then ''('' @ l @ '')'' else l)
                @ '' '' @ op @ '' '' @
                (if precedence X rhs \<le> precedence X (BinaryInfix lhs op rhs)
                    \<or> (IsUnary rhs \<and> IsReduction X rhs)
                 then ''('' @ r @ '')'' else r))
       \<and> Emit X (Unary uop arg) =
           Inr (uop @ (if precedence X arg < precedence X (Unary uop arg) \<or> IsUnary arg
                       then ''('' @ a @ '')'' else a))
       \<and> ''('' @ l @ '')'' \<noteq> l \<and> ''('' @ r @ '')'' \<noteq> r \<and> ''('' @ a @ '')'' \<noteq> a"
proof -
  have neq: "''('' @ s @ '')'' \<noteq> s" for s :: string
    using ParenWrap_neq[of s] by (simp add: ParenWrap_def)
  have b: "Emit X (BinaryInfix lhs op rhs) =
           Inr ((if precedence X lhs < precedence X (BinaryInfix lhs op rhs)
                    \<or> (IsUnary lhs \<and> IsReduction X lhs)
                 then ''('' @ l @ '')'' else l)
                @ '' '' @ op @ '' '' @
                (if precedence X rhs \<le> precedence X (BinaryInfix lhs op rhs)
                    \<or> (IsUnary rhs \<and> IsReduction X rhs)
                 then ''('' @ r @ '')'' else r))"
    using assms(1,2) by (simp add: is_unary_reduction_def ParenWrap_def)
  have u: "Emit X (Unary uop arg) =
           Inr (uop @ (if precedence X arg < precedence X (Unary uop arg) \<or> IsUnary arg
                       then ''('' @ a @ '')'' else a))"
    using assms(3) by (simp add: ParenWrap_def)
  show ?thesis
    using b u neq[of l] neq[of r] neq[of a] by blast
qed

theorem BinaryInfix_Unary_parentheses_witness:
  "Emit verilog_h (BinaryInfix (LogicRef ''a'' scalar_type) ''+'' (LogicRef ''b'' scalar_type))
     = Inr ''a + b''
   \<and> Emit verilog_h (Unary ''|'' (LogicRef ''x'' (vector_type 8))) = Inr ''|x''
   \<and> Emit verilog_h (LogicRef ''c'' scalar_type) = Inr ''c''
   \<and> Emit verilog_h
       (BinaryInfix
          (BinaryInfix (LogicRef ''a'' scalar_type) ''+'' (LogicRef ''b'' scalar_type))
          ''*''
          (Unary ''|'' (LogicRef ''x'' (vector_type 8))))
     = Inr ''(a + b) * (|x)''
   \<and> Emit verilog_h
       (BinaryInfix
          (BinaryInfix (LogicRef ''a'' scalar_type) ''+'' (LogicRef ''b'' scalar_type))
          ''+''
          (BinaryInfix (LogicRef ''a'' scalar_type) ''+'' (LogicRef ''b'' scalar_type)))
     = Inr ''a + b + (a + b)''
   \<and> Emit verilog_h (Unary ''-'' (Unary ''|'' (LogicRef ''x'' (vector_type 8)))) = Inr ''-(|x)''
   \<and> Emit verilog_h (Unary ''-'' (LogicRef ''c'' scalar_type)) = Inr ''-c''"
proof -
  let ?ab = "BinaryInfix (LogicRef ''a'' scalar_type) ''+'' (LogicRef ''b'' scalar_type)"
  let ?rx = "Unary ''|'' (LogicRef ''x'' (vector_type 8))"
  let ?c = "LogicRef ''c'' scalar_type"
  have ab: "Emit verilog_h ?ab = Inr ''a + b''"
    by (simp add: verilog_h_def is_unary_reduction_def)
  have rx: "Emit verilog_h ?rx = Inr ''|x''"
    by (simp add: verilog_h_def)
  have c: "Emit verilog_h ?c = Inr ''c''"
    by simp
  show ?thesis
    using ab rx c
      BinaryInfix_Unary_parentheses[OF ab rx rx, of "''*''" "''-''"]
      BinaryInfix_Unary_parentheses[OF ab ab c, of "''+''" "''-''"]
    by (simp add: verilog_h_def)
qed


section \<open>Combinational delay constraints: proofs\<close>

subsection \<open>Paths into a node\<close>

lemma node_id_inj:
  "distinct (map node_id ns) \<Longrightarrow> n \<in> set ns \<Longrightarrow> n' \<in> set ns \<Longrightarrow> node_id n = node_id n' \<Longrightarrow> n = n'"
  by (meson distinct_map inj_onD)

text \<open>A path into a node is the node alone or a path into one of its operands, extended.\<close>

lemma path_weight_cases:
  assumes p: "path_weight f delay_map a b w"
    and d: "distinct (map node_id (fb_nodes f))"
    and n: "n \<in> set (fb_nodes f)" "node_id n = b" "delay_map b = Some dn"
  shows "(a = b \<and> w = dn)
       \<or> (\<exists>x w'. x \<in> set (operands n) \<and> path_weight f delay_map a x w' \<and> w = w' + dn)"
proof -
  from p show ?thesis
  proof (rule path_weight.cases)
    fix n' d'
    assume "a = node_id n'" "b = node_id n'" "w = d'" "n' \<in> set (fb_nodes f)"
      "delay_map (node_id n') = Some d'"
    then show ?thesis using n by simp
  next
    fix a' x w' n' d'
    assume e: "a = a'" "b = node_id n'" "w = w' + d'"
      and q: "path_weight f delay_map a' x w'" "n' \<in> set (fb_nodes f)"
        "x \<in> set (operands n')" "delay_map (node_id n') = Some d'"
    have "n' = n" using node_id_inj[OF d q(2) n(1)] e(2) n(2) by simp
    then show ?thesis using e q n by auto
  qed
qed

subsection \<open>The example graph\<close>

lemma example_graph_distinct: "distinct (map node_id (fb_nodes example_graph))"
  by (simp add: example_graph_def example_node_a_def example_node_x_def example_node_b_def)

lemma example_graph_nodes:
  "example_node_a \<in> set (fb_nodes example_graph)"
  "example_node_x \<in> set (fb_nodes example_graph)"
  "example_node_b \<in> set (fb_nodes example_graph)"
  by (simp_all add: example_graph_def)

lemma example_graph_paths_a:
  assumes "path_weight example_graph example_graph_delay a 10 w"
  shows "a = 10 \<and> w = 6"
  using path_weight_cases[OF assms example_graph_distinct example_graph_nodes(1), of 6]
  by (simp add: example_node_a_def example_graph_delay_def)

lemma example_graph_paths_x:
  assumes "path_weight example_graph example_graph_delay a 11 w"
  shows "(a = 11 \<and> w = 6) \<or> (a = 10 \<and> w = 12)"
proof -
  from path_weight_cases[OF assms example_graph_distinct example_graph_nodes(2), of 6]
  consider "a = 11 \<and> w = 6"
    | w' where "path_weight example_graph example_graph_delay a 10 w'" "w = w' + 6"
    by (auto simp: example_node_x_def example_graph_delay_def)
  then show ?thesis
  proof cases
    case 1
    then show ?thesis by simp
  next
    case 2
    then show ?thesis using example_graph_paths_a[OF 2(1)] by simp
  qed
qed

lemma example_graph_paths_b:
  assumes "path_weight example_graph example_graph_delay a 12 w"
  shows "(a = 12 \<and> w = 6) \<or> (a = 11 \<and> w = 12) \<or> (a = 10 \<and> (w = 12 \<or> w = 18))"
proof -
  from path_weight_cases[OF assms example_graph_distinct example_graph_nodes(3), of 6]
  consider "a = 12 \<and> w = 6"
    | w' where "path_weight example_graph example_graph_delay a 10 w'" "w = w' + 6"
    | w' where "path_weight example_graph example_graph_delay a 11 w'" "w = w' + 6"
    by (auto simp: example_node_b_def example_graph_delay_def)
  then show ?thesis
  proof cases
    case 1
    then show ?thesis by simp
  next
    case 2
    then show ?thesis using example_graph_paths_a[OF 2(1)] by simp
  next
    case 3
    then show ?thesis using example_graph_paths_x[OF 3(1)] by auto
  qed
qed

lemma example_graph_path_a_a: "path_weight example_graph example_graph_delay 10 10 6"
  using path_self[OF example_graph_nodes(1), of example_graph_delay 6]
  by (simp add: example_node_a_def example_graph_delay_def)

lemma example_graph_path_a_x: "path_weight example_graph example_graph_delay 10 11 12"
  using path_step[OF example_graph_path_a_a example_graph_nodes(2), of 6]
  by (simp add: example_node_x_def example_graph_delay_def)

lemma example_graph_path_a_b_direct: "path_weight example_graph example_graph_delay 10 12 12"
  using path_step[OF example_graph_path_a_a example_graph_nodes(3), of 6]
  by (simp add: example_node_b_def example_graph_delay_def)

lemma example_graph_path_a_x_b: "path_weight example_graph example_graph_delay 10 12 18"
  using path_step[OF example_graph_path_a_x example_graph_nodes(3), of 6]
  by (simp add: example_node_b_def example_graph_delay_def)

lemma example_graph_longest_a_b: "longest example_graph example_graph_delay 10 12 18"
  unfolding longest_def
proof (intro conjI allI impI)
  show "path_weight example_graph example_graph_delay 10 12 18"
    by (rule example_graph_path_a_x_b)
  fix w assume "path_weight example_graph example_graph_delay 10 12 w"
  from example_graph_paths_b[OF this] show "w \<le> 18" by auto
qed

lemma example_graph_constraints:
  "constraints_for example_graph (fb_nodes example_graph) 10 example_graph_delay 10 = Some [11, 12]"
  "constraints_for example_graph_swapped (fb_nodes example_graph_swapped) 10 example_graph_delay 10
   = Some [11]"
  by code_simp+

subsection \<open>A constraint that the critical path does not call for\<close>

text \<open>
  Claim C2 fails on the code. In \<open>example_graph\<close> with the clock period 10, the
  critical-path distance from \<open>a\<close> to \<open>b\<close> is 18, and 18 less the delay of \<open>b\<close> is 12, above
  the clock period: by the claim (and by the comment of the function) \<open>b\<close> is not in the
  result vector of \<open>a\<close>. The function puts it there: the test is made when the first
  operand of \<open>b\<close>, \<open>a\<close> itself, is looked at, with the distance 6 + 6 = 12 of the direct
  path, before the longer path through \<open>x\<close> is seen. With the operands of \<open>b\<close> in the other
  order the function returns the result the claim describes.
\<close>

theorem ComputeCombinationalDelayConstraints_extra_constraint:
  "constraints_for example_graph (fb_nodes example_graph) 10 example_graph_delay 10 = Some [11, 12]
   \<and> longest example_graph example_graph_delay 10 12 18
   \<and> example_graph_delay 12 = Some 6
   \<and> (10::int) < 18 \<and> \<not> (18 - 6 \<le> (10::int))
   \<and> constraints_for example_graph_swapped (fb_nodes example_graph_swapped) 10 example_graph_delay 10
       = Some [11]"
  using example_graph_constraints example_graph_longest_a_b
  by (simp add: example_graph_delay_def)

theorem ComputeCombinationalDelayConstraints_extra_constraint_witness:
  "path_weight example_graph example_graph_delay 10 12 12 \<and> (12::int) \<le> 18
   \<and> path_weight example_graph example_graph_delay 10 12 18"
proof -
  have l: "longest example_graph example_graph_delay 10 12 18"
    using ComputeCombinationalDelayConstraints_extra_constraint by simp
  then have "\<forall>w. path_weight example_graph example_graph_delay 10 12 w \<longrightarrow> w \<le> 18"
    and p: "path_weight example_graph example_graph_delay 10 12 18"
    by (simp_all add: longest_def)
  then have "(12::int) \<le> 18" using example_graph_path_a_b_direct by blast
  then show ?thesis using example_graph_path_a_b_direct p by simp
qed

section \<open>The SDC scheduler: proofs\<close>

lemma double_0_001_bounds: "1/1000 < double_0_001" "double_0_001 < 1/500"
  by (simp_all add: double_0_001_def)

lemma std_round_mono_tol:
  fixes x y :: real
  assumes "\<bar>x - real_of_int (std_round x)\<bar> \<le> double_0_001" "\<bar>y - real_of_int (std_round y)\<bar> \<le> double_0_001"
    and "x - y \<le> tol" "tol \<le> 1/2"
  shows "std_round x \<le> std_round y"
proof -
  have "real_of_int (std_round x) - real_of_int (std_round y) \<le> tol + 2 * double_0_001"
    using assms by linarith
  then have "real_of_int (std_round x - std_round y) < 1"
    using assms(4) double_0_001_bounds(2) by simp
  then have "std_round x - std_round y < 1" by linarith
  then show ?thesis by simp
qed

lemma std_round_pin:
  fixes x :: real
  assumes "\<bar>x - real_of_int (std_round x)\<bar> \<le> double_0_001"
    and "real_of_int k - tol \<le> x" "x \<le> real_of_int k + tol" "tol \<le> 1/2"
  shows "std_round x = k"
proof -
  have "\<bar>real_of_int (std_round x) - real_of_int k\<bar> < 1"
    using assms double_0_001_bounds(2) by linarith
  then have "\<bar>real_of_int (std_round x - k)\<bar> < 1" by simp
  then have "\<bar>std_round x - k\<bar> < 1" by linarith
  then show ?thesis by simp
qed

lemma ExtractResult_loop_Inr:
  "ExtractResult_loop sol ns m0 = Inr m \<Longrightarrow>
     (\<forall>n \<in> set ns. m (node_id n) = Some (std_round (sol (cycle_var (node_id n))))
         \<and> \<bar>sol (cycle_var (node_id n)) - real_of_int (std_round (sol (cycle_var (node_id n))))\<bar> \<le> double_0_001)
   \<and> (\<forall>i. i \<notin> node_id ` set ns \<longrightarrow> m i = m0 i)"
proof (induction ns arbitrary: m0)
  case Nil
  then show ?case by simp
next
  case (Cons n ns)
  let ?c = "sol (cycle_var (node_id n))"
  from Cons.prems have ok: "\<not> \<bar>?c - real_of_int (std_round ?c)\<bar> > double_0_001"
    and rest: "ExtractResult_loop sol ns (m0(node_id n \<mapsto> std_round ?c)) = Inr m"
    by (auto simp: Let_def split: if_splits)
  note IH = Cons.IH[OF rest]
  have hd: "m (node_id n) = Some (std_round ?c)"
  proof (cases "node_id n \<in> node_id ` set ns")
    case True
    then obtain n' where "n' \<in> set ns" "node_id n' = node_id n" by auto
    with IH show ?thesis by metis
  next
    case False
    with IH show ?thesis by simp
  qed
  show ?case using IH hd ok by auto
qed

lemma ExtractResult_loop_Inl:
  "ExtractResult_loop sol ns m0 = Inl e \<Longrightarrow>
     e = Status kInternal ''The scheduling result is expected to be integer''"
  by (induction ns arbitrary: m0) (auto simp: Let_def split: if_splits)

lemma ExtractResult_loop_fail:
  "\<exists>n \<in> set ns. \<bar>sol (cycle_var (node_id n)) - real_of_int (std_round (sol (cycle_var (node_id n))))\<bar> > double_0_001
   \<Longrightarrow> ExtractResult_loop sol ns m0 = Inl (Status kInternal ''The scheduling result is expected to be integer'')"
  by (induction ns arbitrary: m0) (auto simp: Let_def)

lemma MakeRowConstraint_vars [simp]:
  "solver_variables (MakeRowConstraint l u nm cs s) = solver_variables s"
  by (simp add: MakeRowConstraint_def)

lemma MakeRowConstraint_rows:
  "solver_constraints (MakeRowConstraint l u nm cs s) = solver_constraints s @
     [\<lparr>row_lb = l, row_ub = u, row_name = nm, coefficient = fold (\<lambda>(v, c) k. k(v := c)) cs (\<lambda>_. 0)\<rparr>]"
  by (simp add: MakeRowConstraint_def)

lemma MakeRowConstraint_mono:
  "set (solver_constraints s) \<subseteq> set (solver_constraints (MakeRowConstraint l u nm cs s))"
  by (auto simp: MakeRowConstraint_rows)

lemma extends_refl [simp]: "extends s s" by (simp add: extends_def)
lemma extends_trans: "extends a b \<Longrightarrow> extends b c \<Longrightarrow> extends a c"
  by (auto simp: extends_def)
lemma extends_row [simp]: "extends s (MakeRowConstraint l u nm cs s)"
  using MakeRowConstraint_mono by (auto simp: extends_def)
lemma extends_row': "extends a s \<Longrightarrow> extends a (MakeRowConstraint l u nm cs s)"
  using extends_trans extends_row by blast

lemma extends_DefUse: "extends a s \<Longrightarrow> extends a (AddDefUseConstraints n u s)"
  by (simp add: AddDefUseConstraints_def AddLifetimeConstraint_def AddCausalConstraint_def extends_row')

lemma extends_user_loop: "extends a s \<Longrightarrow> extends a (def_use_user_loop n us s)"
  by (induction us arbitrary: s) (auto simp: extends_DefUse)

lemma extends_def_use_loop: "extends a s \<Longrightarrow> extends a (def_use_loop f ns s)"
  by (induction ns arbitrary: s) (auto simp: Let_def extends_user_loop extends_DefUse)

lemma extends_timing_target: "extends a s \<Longrightarrow> extends a (timing_target_loop f src ts s)"
  by (induction ts arbitrary: s) (auto simp: extends_row')

lemma extends_timing_source:
  "extends a s \<Longrightarrow> timing_source_loop f dc ns s = Some s' \<Longrightarrow> extends a s'"
proof (induction ns arbitrary: s)
  case Nil
  then show ?case by simp
next
  case (Cons n ns)
  from Cons.prems(2) obtain ts where ts: "dc (node_id n) = Some ts"
    and rest: "timing_source_loop f dc ns (timing_target_loop f n ts s) = Some s'"
    by (auto split: option.splits)
  show ?case
    using Cons.IH[OF extends_timing_target[OF Cons.prems(1)] rest] .
qed

lemma extends_AddTiming:
  "extends a s \<Longrightarrow> AddTimingConstraints env f cp dm s = Some s' \<Longrightarrow> extends a s'"
  by (auto simp: AddTimingConstraints_def extends_timing_source split: option.splits)

lemma extends_AddObjective: "extends a s \<Longrightarrow> extends a (AddObjective f s)"
  by (simp add: AddObjective_def extends_def)

lemma extends_io_target: "extends a s \<Longrightarrow> extends a (io_target_loop c src ts s)"
  by (induction ts arbitrary: s) (auto simp: extends_row')

lemma extends_io_source: "extends a s \<Longrightarrow> extends a (io_source_loop c srcs ts s)"
  by (induction srcs arbitrary: s) (auto simp: extends_io_target)

lemma extends_RFSL_loop: "extends a s \<Longrightarrow> extends a (AddRFSLConstraint_loop L ns s)"
  by (induction ns arbitrary: s) (auto simp: Let_def extends_row')

lemma extends_AddSchedulingConstraint:
  "extends a s \<Longrightarrow> AddSchedulingConstraint f L c s = Inr s' \<Longrightarrow> extends a s'"
  by (cases c) (auto simp: AddIOConstraint_def AddRFSLConstraint_def extends_io_source
      extends_RFSL_loop split: sum.splits)

lemma extends_scheduling_loop:
  "extends a s \<Longrightarrow> scheduling_constraints_loop f L cs s = Inr s' \<Longrightarrow> extends a s'"
proof (induction cs arbitrary: s)
  case Nil
  then show ?case by simp
next
  case (Cons c cs)
  then show ?case
    by (auto split: sum.splits dest: extends_AddSchedulingConstraint)
qed

lemma make_node_vars_vars:
  "solver_variables (make_node_vars b ns s) = solver_variables s @
     concat (map (\<lambda>n. [\<lparr>mp_var = cycle_var (node_id n), var_lb = Finite (bounds_lb b (node_id n)),
                          var_ub = Finite (bounds_ub b (node_id n)), var_name = node_name n\<rparr>,
                        \<lparr>mp_var = lifetime_var (node_id n), var_lb = Finite 0, var_ub = Infinity,
                          var_name = ''lifetime_'' @ node_name n\<rparr>]) ns)"
  by (induction ns arbitrary: s) (simp_all add: MakeNumVar_def)

lemma ConstraintBuilder_vars:
  "map mp_var (solver_variables (ConstraintBuilder f b)) =
     concat (map (\<lambda>n. [cycle_var (node_id n), lifetime_var (node_id n)]) (fb_nodes f)) @ [cycle_at_sinknode]"
  by (simp add: ConstraintBuilder_def MakeNumVar_def make_node_vars_vars empty_solver_def
      map_concat comp_def)

lemma distinct_node_vars:
  "distinct (map node_id ns) \<Longrightarrow>
     distinct (concat (map (\<lambda>n. [cycle_var (node_id n), lifetime_var (node_id n)]) ns))"
  by (induction ns) auto

lemma ConstraintBuilder_distinct:
  "distinct (map node_id (fb_nodes f)) \<Longrightarrow>
     distinct (map mp_var (solver_variables (ConstraintBuilder f b)))"
  by (auto simp: ConstraintBuilder_vars distinct_node_vars)

lemma ConstraintBuilder_cycle_var:
  "n \<in> set (fb_nodes f) \<Longrightarrow>
     \<lparr>mp_var = cycle_var (node_id n), var_lb = Finite (bounds_lb b (node_id n)),
       var_ub = Finite (bounds_ub b (node_id n)), var_name = node_name n\<rparr>
       \<in> set (solver_variables (ConstraintBuilder f b))"
  by (auto simp: ConstraintBuilder_def MakeNumVar_def make_node_vars_vars)

lemma cycle_var_mem:
  "n \<in> set (fb_nodes f) \<Longrightarrow> cycle_var (node_id n) \<in> set (map mp_var (solver_variables (ConstraintBuilder f b)))"
  by (auto simp: ConstraintBuilder_vars)

lemma sink_mem:
  "cycle_at_sinknode \<in> set (map mp_var (solver_variables (ConstraintBuilder f b)))"
  by (auto simp: ConstraintBuilder_vars)

lemma activity_two:
  assumes d: "distinct (map mp_var vs)" and x: "x \<in> set (map mp_var vs)" and y: "y \<in> set (map mp_var vs)"
    and xy: "x \<noteq> y"
  shows "sum_list (map (\<lambda>v. real_of_int (((\<lambda>_. 0)(x := a, y := b)) (mp_var v)) * sol (mp_var v)) vs)
         = real_of_int a * sol x + real_of_int b * sol y"
proof -
  let ?g = "\<lambda>w. real_of_int (((\<lambda>_. 0)(x := a, y := b)) w) * sol w"
  have "sum_list (map (\<lambda>v. ?g (mp_var v)) vs) = sum_list (map ?g (map mp_var vs))"
    by (simp add: comp_def)
  also have "\<dots> = sum ?g (set (map mp_var vs))"
    using d by (rule sum_list_distinct_conv_sum_set)
  also have "\<dots> = sum ?g {x, y}"
    using x y by (intro sum.mono_neutral_right) auto
  also have "\<dots> = real_of_int a * sol x + real_of_int b * sol y"
    using xy by simp
  finally show ?thesis .
qed

lemma activity_one:
  assumes d: "distinct (map mp_var vs)" and x: "x \<in> set (map mp_var vs)"
  shows "sum_list (map (\<lambda>v. real_of_int (((\<lambda>_. 0)(x := a)) (mp_var v)) * sol (mp_var v)) vs)
         = real_of_int a * sol x"
proof -
  let ?g = "\<lambda>w. real_of_int (((\<lambda>_. 0)(x := a)) w) * sol w"
  have "sum_list (map (\<lambda>v. ?g (mp_var v)) vs) = sum_list (map ?g (map mp_var vs))"
    by (simp add: comp_def)
  also have "\<dots> = sum ?g (set (map mp_var vs))"
    using d by (rule sum_list_distinct_conv_sum_set)
  also have "\<dots> = sum ?g {x}"
    using x by (intro sum.mono_neutral_right) auto
  also have "\<dots> = real_of_int a * sol x"
    by simp
  finally show ?thesis .
qed

lemma causal_in_DefUse:
  "causal_row n u \<in> set (solver_constraints (AddDefUseConstraints n u s))"
  by (simp add: AddDefUseConstraints_def AddLifetimeConstraint_def AddCausalConstraint_def
      MakeRowConstraint_rows causal_row_def)

lemma rows_mono: "extends a s \<Longrightarrow> r \<in> set (solver_constraints a) \<Longrightarrow> r \<in> set (solver_constraints s)"
  by (auto simp: extends_def)

lemma causal_in_user_loop:
  "u \<in> set us \<Longrightarrow> causal_row n (Some u) \<in> set (solver_constraints (def_use_user_loop n us s))"
proof (induction us arbitrary: s)
  case Nil
  then show ?case by simp
next
  case (Cons x xs)
  show ?case
  proof (cases "u = x")
    case True
    have "extends (AddDefUseConstraints n (Some x) s) (def_use_user_loop n xs (AddDefUseConstraints n (Some x) s))"
      by (rule extends_user_loop) simp
    from rows_mono[OF this causal_in_DefUse] show ?thesis using True by simp
  next
    case False
    with Cons.prems have "u \<in> set xs" by simp
    from Cons.IH[OF this] show ?thesis by simp
  qed
qed

lemma causal_in_def_use_loop:
  assumes "n \<in> set ns"
  shows "(\<forall>u \<in> set (users f n). causal_row n (Some u) \<in> set (solver_constraints (def_use_loop f ns s)))
       \<and> (HasImplicitUse f n \<longrightarrow> causal_row n None \<in> set (solver_constraints (def_use_loop f ns s)))"
  using assms
proof (induction ns arbitrary: s)
  case Nil
  then show ?case by simp
next
  case (Cons x xs)
  let ?s1 = "def_use_user_loop x (users f x) s"
  let ?s2 = "if HasImplicitUse f x then AddDefUseConstraints x None ?s1 else ?s1"
  have step: "def_use_loop f (x # xs) s = def_use_loop f xs ?s2"
    by (simp add: Let_def)
  show ?case
  proof (cases "n = x")
    case True
    have e12: "extends ?s1 ?s2" by (simp add: extends_DefUse)
    have e2: "extends ?s2 (def_use_loop f xs ?s2)" by (rule extends_def_use_loop) simp
    have a: "\<forall>u \<in> set (users f x). causal_row x (Some u) \<in> set (solver_constraints (def_use_loop f xs ?s2))"
      using causal_in_user_loop rows_mono[OF e12] rows_mono[OF e2] by blast
    have b: "HasImplicitUse f x \<longrightarrow> causal_row x None \<in> set (solver_constraints (def_use_loop f xs ?s2))"
      using causal_in_DefUse rows_mono[OF e2] by (metis (full_types))
    show ?thesis unfolding step using a b True by blast
  next
    case False
    with Cons.prems have "n \<in> set xs" by simp
    from Cons.IH[OF this] show ?thesis unfolding step by blast
  qed
qed


lemma SDCScheduler_Inr:
  assumes "SDCScheduler env f ps cp est b cs = Inr cm"
  obtains dm lp sol where "ComputeNodeDelays (fb_nodes f) est Map.empty = Inr dm"
    and "BuildProblem env f ps cp dm b cs = Inr lp"
    and "Solve env lp = (OPTIMAL, sol)"
    and "ExtractResult f sol = Inr cm"
  using assms unfolding SDCScheduler_def
  by (auto split: if_splits sum.splits prod.splits)

lemma BuildProblem_Inr:
  assumes "BuildProblem env f ps cp dm b cs = Inr lp"
  obtains s1 where "scheduling_constraints_loop f ps cs (ConstraintBuilder f b) = Inr s1"
    and "extends (ConstraintBuilder f b) s1"
    and "extends (def_use_loop f (fb_nodes f) s1) lp"
proof -
  from assms obtain s1 s2 where
    s1: "scheduling_constraints_loop f ps cs (ConstraintBuilder f b) = Inr s1"
    and s2: "AddTimingConstraints env f cp dm (def_use_loop f (fb_nodes f) s1) = Some s2"
    and lp: "lp = AddObjective f s2"
    unfolding BuildProblem_def by (auto split: sum.splits option.splits)
  have e1: "extends (ConstraintBuilder f b) s1"
    using extends_scheduling_loop[OF _ s1] by simp
  have "extends (def_use_loop f (fb_nodes f) s1) s2"
    using extends_AddTiming[OF _ s2] by simp
  then have e2: "extends (def_use_loop f (fb_nodes f) s1) lp"
    unfolding lp by (rule extends_AddObjective)
  show ?thesis using that[OF s1 e1 e2] .
qed

lemma BuildProblem_vars:
  assumes "BuildProblem env f ps cp dm b cs = Inr lp"
  shows "solver_variables lp = solver_variables (ConstraintBuilder f b)"
proof -
  from BuildProblem_Inr[OF assms] obtain s1 where
    e1: "extends (ConstraintBuilder f b) s1" and e2: "extends (def_use_loop f (fb_nodes f) s1) lp"
    by blast
  have "extends s1 (def_use_loop f (fb_nodes f) s1)" by (rule extends_def_use_loop) simp
  with e1 e2 show ?thesis by (simp add: extends_def)
qed

lemma feasible_row:
  "feasible tol lp sol \<Longrightarrow> r \<in> set (solver_constraints lp) \<Longrightarrow>
     in_bounds tol (row_lb r) (row_ub r) (row_activity lp sol r)"
  by (auto simp: feasible_def list_all_iff)

lemma feasible_var:
  "feasible tol lp sol \<Longrightarrow> v \<in> set (solver_variables lp) \<Longrightarrow>
     in_bounds tol (var_lb v) (var_ub v) (sol (mp_var v))"
  by (auto simp: feasible_def list_all_iff)

lemma users_subset: "u \<in> set (users f n) \<Longrightarrow> u \<in> set (fb_nodes f)"
  by (simp add: users_def)

text \<open>
  At the threshold: a solution value that is the double \<open>0.001\<close> away from an integer is
  rounded, one that is 1/500 away is refused.
\<close>

lemma ExtractResult_threshold:
  "(case ExtractResult example_proc_nodes ((\<lambda>v. 0)(cycle_var 3 := 1 + double_0_001)) of
      Inl e \<Rightarrow> None | Inr cycle_map \<Rightarrow> cycle_map 3) = Some 1"
  "(case ExtractResult example_proc_nodes ((\<lambda>v. 0)(cycle_var 3 := 1 + 1/500)) of
      Inl e \<Rightarrow> Some e | Inr cycle_map \<Rightarrow> None)
   = Some (Status kInternal ''The scheduling result is expected to be integer'')"
  by code_simp+

lemma SDCScheduler_not_optimal:
  "CreateSolver env \<Longrightarrow> ComputeNodeDelays (fb_nodes f) est Map.empty = Inr dmap \<Longrightarrow>
   BuildProblem env f ps cp dmap b cs = Inr lp \<Longrightarrow> fst (Solve env lp) \<noteq> OPTIMAL \<Longrightarrow>
   SDCScheduler env f ps cp est b cs
     = Inl (Failed (Status kInternal ''The problem does not have an optimal solution''))"
  by (auto simp: SDCScheduler_def split: prod.splits)

lemma ex_run: "case SDCScheduler (example_solver OPTIMAL 2 1) example_proc_nodes 3 1000 example_delay
            (example_bounds 0 2) [RecvsFirstSendsLast] of Inl e \<Rightarrow> False | Inr m \<Rightarrow> True"
  by code_simp

lemma ex_sound: "solver_sound (1/1000000) (example_solver OPTIMAL 2 1) example_proc_nodes 3 1000
    example_delay (example_bounds 0 2) [RecvsFirstSendsLast]"
  by code_simp

lemma ex_distinct: "distinct (map node_id (fb_nodes example_proc_nodes))"
  by code_simp

text \<open>
  C3. For every data edge \<open>u \<rightarrow> v\<close> of the scheduled function (\<open>v\<close> a user of \<open>u\<close>, a
  different node), if \<open>SDCScheduler\<close> returns a cycle map then \<open>cycle[u] \<le> cycle[v]\<close>.
  For a node with an implicit use the edge goes to the sink: the sink is a variable of the
  linear program only (the cycle map has no entry for it), and the solution puts it at or
  after the node, up to the tolerance. The solver is taken to answer \<open>OPTIMAL\<close> only
  with a solution that satisfies the problem up to a tolerance of at most 1/2; the nodes
  have distinct identities.
\<close>

theorem SDCScheduler_causal:
  assumes run: "SDCScheduler env f pipeline_stages clock_period_ps delay_estimator bounds cs = Inr cycle_map"
    and sound: "solver_sound tol env f pipeline_stages clock_period_ps delay_estimator bounds cs"
    and tol: "tol \<le> 1/2"
    and wf: "distinct (map node_id (fb_nodes f))"
    and u: "u \<in> set (fb_nodes f)"
  shows "(\<forall>v \<in> set (users f u). node_id u \<noteq> node_id v \<longrightarrow>
            (\<exists>cu cv. cycle_map (node_id u) = Some cu \<and> cycle_map (node_id v) = Some cv \<and> cu \<le> cv))
       \<and> (HasImplicitUse f u \<longrightarrow>
            (\<exists>dmap lp sol.
                ComputeNodeDelays (fb_nodes f) delay_estimator Map.empty = Inr dmap
              \<and> BuildProblem env f pipeline_stages clock_period_ps dmap bounds cs = Inr lp
              \<and> Solve env lp = (OPTIMAL, sol)
              \<and> cycle_map (node_id u) = Some (std_round (sol (cycle_var (node_id u))))
              \<and> sol (cycle_var (node_id u)) \<le> sol cycle_at_sinknode + tol))"
proof -
  from SDCScheduler_Inr[OF run] obtain dmap lp sol where
    dm: "ComputeNodeDelays (fb_nodes f) delay_estimator Map.empty = Inr dmap"
    and lp: "BuildProblem env f pipeline_stages clock_period_ps dmap bounds cs = Inr lp"
    and sol: "Solve env lp = (OPTIMAL, sol)"
    and ex: "ExtractResult f sol = Inr cycle_map"
    by blast
  have feas: "feasible tol lp sol"
    using sound dm lp sol by (simp add: solver_sound_def)
  from BuildProblem_Inr[OF lp] obtain s1 where
    e2: "extends (def_use_loop f (fb_nodes f) s1) lp" by blast
  have vars: "solver_variables lp = solver_variables (ConstraintBuilder f bounds)"
    using lp by (rule BuildProblem_vars)
  have d: "distinct (map mp_var (solver_variables (ConstraintBuilder f bounds)))"
    using wf by (rule ConstraintBuilder_distinct)
  have x: "cycle_var (node_id u) \<in> set (map mp_var (solver_variables (ConstraintBuilder f bounds)))"
    using u by (rule cycle_var_mem)
  from ex have R: "\<forall>n \<in> set (fb_nodes f). cycle_map (node_id n) = Some (std_round (sol (cycle_var (node_id n))))
         \<and> \<bar>sol (cycle_var (node_id n)) - real_of_int (std_round (sol (cycle_var (node_id n))))\<bar> \<le> double_0_001"
    unfolding ExtractResult_def using ExtractResult_loop_Inr by blast
  have edge: "\<exists>cu cv. cycle_map (node_id u) = Some cu \<and> cycle_map (node_id v) = Some cv \<and> cu \<le> cv"
    if v: "v \<in> set (users f u)" and uv: "node_id u \<noteq> node_id v" for v
  proof -
    have vin: "v \<in> set (fb_nodes f)" using v by (rule users_subset)
    have row: "causal_row u (Some v) \<in> set (solver_constraints lp)"
      using causal_in_def_use_loop[OF u, of f s1] v rows_mono[OF e2] by blast
    have y: "cycle_var (node_id v) \<in> set (map mp_var (solver_variables (ConstraintBuilder f bounds)))"
      using vin by (rule cycle_var_mem)
    have ne: "cycle_var (node_id u) \<noteq> cycle_var (node_id v)" using uv by simp
    have act: "row_activity lp sol (causal_row u (Some v))
               = sol (cycle_var (node_id u)) - sol (cycle_var (node_id v))"
      unfolding row_activity_def vars causal_row_def user_var_def
      using activity_two[OF d x y ne, where a = 1 and b = "-1" and sol = sol]
      by simp
    have le: "sol (cycle_var (node_id u)) - sol (cycle_var (node_id v)) \<le> tol"
      using feasible_row[OF feas row] act
      by (simp add: in_bounds_def upper_ok_def causal_row_def)
    have "std_round (sol (cycle_var (node_id u))) \<le> std_round (sol (cycle_var (node_id v)))"
      using std_round_mono_tol[OF _ _ le tol] R u vin by blast
    then show ?thesis using R u vin by blast
  qed
  have sink: "sol (cycle_var (node_id u)) \<le> sol cycle_at_sinknode + tol" if imp: "HasImplicitUse f u"
  proof -
    have row: "causal_row u None \<in> set (solver_constraints lp)"
      using causal_in_def_use_loop[OF u, of f s1] imp rows_mono[OF e2] by blast
    have y: "cycle_at_sinknode \<in> set (map mp_var (solver_variables (ConstraintBuilder f bounds)))"
      by (rule sink_mem)
    have ne: "cycle_var (node_id u) \<noteq> cycle_at_sinknode" by simp
    have act: "row_activity lp sol (causal_row u None)
               = sol (cycle_var (node_id u)) - sol cycle_at_sinknode"
      unfolding row_activity_def vars causal_row_def user_var_def
      using activity_two[OF d x y ne, where a = 1 and b = "-1" and sol = sol]
      by simp
    show ?thesis
      using feasible_row[OF feas row] act
      by (simp add: in_bounds_def upper_ok_def causal_row_def)
  qed
  show ?thesis
    using edge sink dm lp sol R u by blast
qed


lemma RFSL_loop_rows:
  assumes "n \<in> set ns"
  shows "(node_op n = kReceive \<longrightarrow> recv_row n \<in> set (solver_constraints (AddRFSLConstraint_loop L ns s)))
       \<and> (node_op n = kSend \<longrightarrow> send_row L n \<in> set (solver_constraints (AddRFSLConstraint_loop L ns s)))"
  using assms
proof (induction ns arbitrary: s)
  case Nil
  then show ?case by simp
next
  case (Cons x xs)
  let ?s1 = "if node_op x = kReceive then
               MakeRowConstraint NegInfinity (Finite 0) (''recv_'' @ node_name x)
                 [(cycle_var (node_id x), 1)] s else s"
  let ?s2 = "if node_op x = kSend then
               MakeRowConstraint NegInfinity (Finite (- (L - 1)))
                 (''send_'' @ node_name x) [(cycle_var (node_id x), -1)] ?s1 else ?s1"
  have step: "AddRFSLConstraint_loop L (x # xs) s = AddRFSLConstraint_loop L xs ?s2"
    by (simp add: Let_def)
  show ?case
  proof (cases "n = x")
    case True
    have e: "extends ?s2 (AddRFSLConstraint_loop L xs ?s2)" by (rule extends_RFSL_loop) simp
    have e12: "extends ?s1 ?s2" by simp
    have a: "node_op x = kReceive \<longrightarrow> recv_row x \<in> set (solver_constraints ?s1)"
      by (simp add: MakeRowConstraint_rows recv_row_def)
    have b: "node_op x = kSend \<longrightarrow> send_row L x \<in> set (solver_constraints ?s2)"
      by (simp add: MakeRowConstraint_rows send_row_def)
    show ?thesis unfolding step using a b rows_mono[OF e] rows_mono[OF e12] True by blast
  next
    case False
    with Cons.prems have "n \<in> set xs" by simp
    from Cons.IH[OF this] show ?thesis unfolding step by blast
  qed
qed

lemma RFSL_scheduling_loop_rows:
  assumes "RecvsFirstSendsLast \<in> set cs" and "scheduling_constraints_loop f L cs s = Inr s'"
    and "n \<in> set (fb_nodes f)"
  shows "(node_op n = kReceive \<longrightarrow> recv_row n \<in> set (solver_constraints s'))
       \<and> (node_op n = kSend \<longrightarrow> send_row L n \<in> set (solver_constraints s'))"
  using assms(1,2)
proof (induction cs arbitrary: s)
  case Nil
  then show ?case by simp
next
  case (Cons c cs)
  from Cons.prems(2) obtain s1 where c: "AddSchedulingConstraint f L c s = Inr s1"
    and rest: "scheduling_constraints_loop f L cs s1 = Inr s'"
    by (auto split: sum.splits)
  show ?case
  proof (cases "c = RecvsFirstSendsLast")
    case True
    with c have s1: "s1 = AddRFSLConstraint_loop L (fb_nodes f) s"
      by (simp add: AddRFSLConstraint_def)
    have e: "extends s1 s'" using extends_scheduling_loop[OF _ rest] by simp
    show ?thesis
      using RFSL_loop_rows[OF assms(3), of L s] rows_mono[OF e] unfolding s1 by blast
  next
    case False
    with Cons.prems(1) have "RecvsFirstSendsLast \<in> set cs" by simp
    from Cons.IH[OF this rest] show ?thesis .
  qed
qed


theorem SDCScheduler_causal_witness:
  "\<exists>cycle_map cu cv.
     SDCScheduler (example_solver OPTIMAL 2 1) example_proc_nodes 3 1000 example_delay
       (example_bounds 0 2) [RecvsFirstSendsLast] = Inr cycle_map
   \<and> solver_sound (1/1000000) (example_solver OPTIMAL 2 1) example_proc_nodes 3 1000
       example_delay (example_bounds 0 2) [RecvsFirstSendsLast]
   \<and> example_data \<in> set (users example_proc_nodes example_rcv)
   \<and> cycle_map 2 = Some cu \<and> cycle_map 3 = Some cv \<and> cu \<le> cv"
proof -
  obtain cycle_map where run:
    "SDCScheduler (example_solver OPTIMAL 2 1) example_proc_nodes 3 1000 example_delay
       (example_bounds 0 2) [RecvsFirstSendsLast] = Inr cycle_map"
    using ex_run by (auto split: sum.splits)
  have u: "example_rcv \<in> set (fb_nodes example_proc_nodes)"
    by (simp add: example_proc_nodes_def)
  have v: "example_data \<in> set (users example_proc_nodes example_rcv)"
    by (simp add: example_proc_nodes_def users_def example_tkn_def example_rcv_def
        example_data_def example_snd_def)
  have idu: "node_id example_rcv = 2" and idv: "node_id example_data = 3"
    by (simp_all add: example_rcv_def example_data_def)
  have uv: "node_id example_rcv \<noteq> node_id example_data"
    by (simp add: idu idv)
  have "\<forall>v \<in> set (users example_proc_nodes example_rcv). node_id example_rcv \<noteq> node_id v \<longrightarrow>
            (\<exists>cu cv. cycle_map (node_id example_rcv) = Some cu \<and> cycle_map (node_id v) = Some cv \<and> cu \<le> cv)"
    using SDCScheduler_causal[OF run ex_sound _ ex_distinct u] by simp
  from bspec[OF this v] uv
  obtain cu cv where "cycle_map 2 = Some cu" "cycle_map 3 = Some cv" "cu \<le> cv"
    unfolding idu idv by blast
  then show ?thesis using run ex_sound v by blast
qed








lemma infeasible_bounds:
  assumes lp: "BuildProblem env f ps cp dmap b cs = Inr lp"
    and n: "n \<in> set (fb_nodes f)" and bad: "bounds_ub b (node_id n) < bounds_lb b (node_id n)"
  shows "\<not> feasible 0 lp sol"
proof
  assume feas: "feasible 0 lp sol"
  have vars: "solver_variables lp = solver_variables (ConstraintBuilder f b)"
    using lp by (rule BuildProblem_vars)
  have "in_bounds 0 (Finite (bounds_lb b (node_id n))) (Finite (bounds_ub b (node_id n)))
          (sol (cycle_var (node_id n)))"
    using feasible_var[OF feas, unfolded vars, OF ConstraintBuilder_cycle_var[OF n]] by simp
  then have "real_of_int (bounds_lb b (node_id n)) \<le> real_of_int (bounds_ub b (node_id n))"
    by (simp add: in_bounds_def lower_ok_def upper_ok_def)
  with bad show False by simp
qed

lemma infeasible_send:
  assumes lp: "BuildProblem env f ps cp dmap b cs = Inr lp"
    and wf: "distinct (map node_id (fb_nodes f))"
    and rfsl: "RecvsFirstSendsLast \<in> set cs"
    and n: "n \<in> set (fb_nodes f)" and send: "node_op n = kSend"
    and bad: "bounds_ub b (node_id n) < ps - 1"
  shows "\<not> feasible 0 lp sol"
proof
  assume feas: "feasible 0 lp sol"
  from BuildProblem_Inr[OF lp] obtain s1 where
    s1: "scheduling_constraints_loop f ps cs (ConstraintBuilder f b) = Inr s1"
    and e2: "extends (def_use_loop f (fb_nodes f) s1) lp" by blast
  have e1: "extends s1 lp"
    using extends_trans[OF extends_def_use_loop[OF extends_refl] e2] .
  have vars: "solver_variables lp = solver_variables (ConstraintBuilder f b)"
    using lp by (rule BuildProblem_vars)
  let ?x = "sol (cycle_var (node_id n))"
  have d: "distinct (map mp_var (solver_variables (ConstraintBuilder f b)))"
    using wf by (rule ConstraintBuilder_distinct)
  have x: "cycle_var (node_id n) \<in> set (map mp_var (solver_variables (ConstraintBuilder f b)))"
    using n by (rule cycle_var_mem)
  have vb: "in_bounds 0 (Finite (bounds_lb b (node_id n))) (Finite (bounds_ub b (node_id n))) ?x"
    using feasible_var[OF feas, unfolded vars, OF ConstraintBuilder_cycle_var[OF n]] by simp
  have row: "send_row ps n \<in> set (solver_constraints lp)"
    using RFSL_scheduling_loop_rows[OF rfsl s1 n] send rows_mono[OF e1] by blast
  have act: "row_activity lp sol (send_row ps n) = - ?x"
    unfolding row_activity_def vars send_row_def
    using activity_one[OF d x, where a = "-1" and sol = sol] by simp
  have dn: "real_of_int (ps - 1) \<le> ?x"
    using feasible_row[OF feas row] act by (simp add: in_bounds_def upper_ok_def send_row_def)
  have up: "?x \<le> real_of_int (bounds_ub b (node_id n))"
    using vb by (simp add: in_bounds_def upper_ok_def)
  from dn up have "real_of_int (ps - 1) \<le> real_of_int (bounds_ub b (node_id n))" by linarith
  with bad show False by linarith
qed







section \<open>The proc state optimization pass: proofs\<close>

subsection \<open>Replacing and removing state elements\<close>

lemma TypeOfValue_ZeroOfType: "TypeOfValue (ZeroOfType t) = t"
proof (induction t)
  case (TupleType ts)
  then have "map (\<lambda>x. TypeOfValue (ZeroOfType x)) ts = ts"
    by (induction ts) auto
  then show ?case by (simp add: comp_def)
qed auto

lemma ReplaceUsesWithNew_Literal_zero:
  "\<exists>p1. ReplaceUsesWithNew_Literal p n (ZeroOfType (node_type n)) = Inr p1
        \<and> state_params p1 = state_params p \<and> init_values p1 = init_values p
        \<and> length (next_state p1) = length (next_state p)
        \<and> token_param p1 = token_param p
        \<and> proc_log p1 = proc_log p @ [ReplaceUsesWithNewLiteral (node_id n) (ZeroOfType (node_type n))]"
  by (simp add: ReplaceUsesWithNew_Literal_def TypeOfValue_ZeroOfType Let_def)

lemma RemoveStateElement_ok:
  "i < length (state_params p) \<Longrightarrow>
     \<exists>p2. RemoveStateElement p i = Inr p2
        \<and> state_params p2 = remove_nth i (state_params p)
        \<and> proc_log p2 = proc_log p @ [RemoveStateElementCall i]"
  by (simp add: RemoveStateElement_def GetStateElementCount_def)

lemma RemoveStateElement_Inr:
  "RemoveStateElement p i = Inr p2 \<Longrightarrow>
     i < length (state_params p) \<and> state_params p2 = remove_nth i (state_params p)
     \<and> proc_log p2 = proc_log p @ [RemoveStateElementCall i]"
  by (auto simp: RemoveStateElement_def GetStateElementCount_def split: if_splits)

lemma ReplaceUsesWithNew_Literal_Inr:
  "ReplaceUsesWithNew_Literal p n v = Inr p1 \<Longrightarrow>
     state_params p1 = state_params p
     \<and> proc_log p1 = proc_log p @ [ReplaceUsesWithNewLiteral (node_id n) v]"
  by (auto simp: ReplaceUsesWithNew_Literal_def Let_def split: if_splits)

lemma remove_nth_length: "i < length xs \<Longrightarrow> length (remove_nth i xs) = length xs - 1"
  by (simp add: remove_nth_def)

lemma remove_nth_nth_lt: "j < i \<Longrightarrow> i < length xs \<Longrightarrow> remove_nth i xs ! j = xs ! j"
  by (simp add: remove_nth_def nth_append)

lemma remove_nth_subset: "set (remove_nth i xs) \<subseteq> set xs"
proof
  fix x assume "x \<in> set (remove_nth i xs)"
  then have "x \<in> set (take i xs) \<or> x \<in> set (drop (Suc i) xs)" by (simp add: remove_nth_def)
  then show "x \<in> set xs" using in_set_takeD in_set_dropD by metis
qed

lemma remove_indices_subset: "set (remove_indices zs xs) \<subseteq> set xs"
proof (induction zs arbitrary: xs)
  case Nil
  then show ?case by (simp add: remove_indices_def)
next
  case (Cons z zs)
  have "set (remove_indices zs (remove_nth z xs)) \<subseteq> set (remove_nth z xs)"
    using Cons.IH .
  then show ?case using remove_nth_subset[of z xs] by (auto simp: remove_indices_def)
qed

lemma remove_nth_append_left:
  "i < length xs \<Longrightarrow> remove_nth i (xs @ ys) = remove_nth i xs @ ys"
  by (simp add: remove_nth_def)

lemma remove_indices_append_left:
  "\<forall>z \<in> set zs. z < length xs \<Longrightarrow> sorted_wrt (>) zs \<Longrightarrow>
     remove_indices zs (xs @ ys) = remove_indices zs xs @ ys
     \<and> length (remove_indices zs xs) = length xs - length zs"
proof (induction zs arbitrary: xs)
  case Nil
  then show ?case by (simp add: remove_indices_def)
next
  case (Cons z zs)
  have z: "z < length xs" using Cons.prems(1) by simp
  have len: "length (remove_nth z xs) = length xs - 1" using z by (rule remove_nth_length)
  have lt: "\<forall>y \<in> set zs. y < z" using Cons.prems(2) by auto
  then have b: "\<forall>y \<in> set zs. y < length (remove_nth z xs)" using z len by auto
  have s: "sorted_wrt (>) zs" using Cons.prems(2) by simp
  from Cons.IH[OF b s] show ?case
    using z len by (simp add: remove_indices_def remove_nth_append_left)
qed

lemma down_from_set: "set (down_from n) = {..<n}"
  by (induction n) (simp_all add: lessThan_Suc)

lemma down_from_sorted: "sorted_wrt (>) (down_from n)"
  by (induction n) (auto simp: down_from_set)

lemma sorted_wrt_filter_gt: "sorted_wrt (>) xs \<Longrightarrow> sorted_wrt (>) (filter P (xs :: nat list))"
  by (induction xs) auto

lemma remove_indices_filter:
  "remove_indices (filter (\<lambda>i. P (xs ! i)) (down_from (length xs))) xs = filter (\<lambda>x. \<not> P x) xs"
proof (induction xs rule: rev_induct)
  case Nil
  then show ?case by (simp add: remove_indices_def)
next
  case (snoc y ys)
  let ?n = "length ys"
  let ?zs = "filter (\<lambda>i. P (ys ! i)) (down_from ?n)"
  have eq: "filter (\<lambda>i. P ((ys @ [y]) ! i)) (down_from ?n) = ?zs"
    by (rule filter_cong) (auto simp: down_from_set nth_append)
  have b: "\<forall>z \<in> set ?zs. z < length ys" by (auto simp: down_from_set)
  have s: "sorted_wrt (>) ?zs" by (rule sorted_wrt_filter_gt[OF down_from_sorted])
  show ?case
  proof (cases "P y")
    case True
    have "remove_nth ?n (ys @ [y]) = ys" by (simp add: remove_nth_def)
    then show ?thesis using True snoc.IH eq by (simp add: remove_indices_def)
  next
    case False
    have "remove_indices ?zs (ys @ [y]) = remove_indices ?zs ys @ [y]"
      using remove_indices_append_left[OF b s] by blast
    then show ?thesis using False snoc.IH eq by simp
  qed
qed

lemma remove_indices_nth:
  "i < length xs \<Longrightarrow> \<forall>z \<in> set zs. i < z \<and> z < length xs \<Longrightarrow> sorted_wrt (>) zs \<Longrightarrow>
     remove_indices zs xs ! i = xs ! i \<and> i < length (remove_indices zs xs)"
proof (induction zs arbitrary: xs)
  case Nil
  then show ?case by (simp add: remove_indices_def)
next
  case (Cons z zs)
  have z: "i < z" "z < length xs" using Cons.prems(2) by auto
  have len: "length (remove_nth z xs) = length xs - 1" using z by (simp add: remove_nth_length)
  have i': "i < length (remove_nth z xs)" using z len by simp
  have lt: "\<forall>y \<in> set zs. y < z" using Cons.prems(3) by auto
  have b: "\<forall>y \<in> set zs. i < y \<and> y < length (remove_nth z xs)"
  proof
    fix y assume y: "y \<in> set zs"
    then have "i < y" using Cons.prems(2) by simp
    moreover have "y < z" using lt y by simp
    ultimately show "i < y \<and> y < length (remove_nth z xs)" using z len by simp
  qed
  have s: "sorted_wrt (>) zs" using Cons.prems(3) by simp
  have "remove_indices zs (remove_nth z xs) ! i = remove_nth z xs ! i
        \<and> i < length (remove_indices zs (remove_nth z xs))"
    using Cons.IH[OF i' b s] .
  then show ?case
    using remove_nth_nth_lt[OF z] by (simp add: remove_indices_def)
qed


text \<open>The zero-width loop.\<close>

lemma remove_zero_width_loop_ok:
  assumes "\<forall>z \<in> set zs. z < length (state_params p)" and "sorted_wrt (>) zs"
  shows "\<exists>p'. remove_zero_width_loop zs p = Inr p'
       \<and> state_params p' = remove_indices zs (state_params p)
       \<and> proc_log p' = proc_log p @
            concat (map (\<lambda>i. [ReplaceUsesWithNewLiteral (node_id (state_params p ! i))
                                 (ZeroOfType (node_type (state_params p ! i))),
                               RemoveStateElementCall i]) zs)"
  using assms
proof (induction zs arbitrary: p)
  case Nil
  then show ?case by (simp add: remove_indices_def)
next
  case (Cons z zs)
  let ?n = "state_params p ! z"
  have z: "z < length (state_params p)" using Cons.prems(1) by simp
  obtain p1 where p1: "ReplaceUsesWithNew_Literal p ?n (ZeroOfType (node_type ?n)) = Inr p1"
    and sp1: "state_params p1 = state_params p"
    and log1: "proc_log p1 = proc_log p @ [ReplaceUsesWithNewLiteral (node_id ?n) (ZeroOfType (node_type ?n))]"
    using ReplaceUsesWithNew_Literal_zero[of p ?n] by blast
  obtain p2 where p2: "RemoveStateElement p1 z = Inr p2"
    and sp2: "state_params p2 = remove_nth z (state_params p)"
    and log2: "proc_log p2 = proc_log p1 @ [RemoveStateElementCall z]"
    using RemoveStateElement_ok[of z p1] z sp1 by auto
  have lt: "\<forall>y \<in> set zs. y < z" using Cons.prems(2) by auto
  have len: "length (state_params p2) = length (state_params p) - 1"
    using sp2 z by (simp add: remove_nth_length)
  have b: "\<forall>y \<in> set zs. y < length (state_params p2)"
  proof
    fix y assume "y \<in> set zs"
    then have "y < z" using lt by simp
    then show "y < length (state_params p2)" using z len by simp
  qed
  have s: "sorted_wrt (>) zs" using Cons.prems(2) by simp
  from Cons.IH[OF b s] obtain p' where
    r: "remove_zero_width_loop zs p2 = Inr p'"
    and sp': "state_params p' = remove_indices zs (state_params p2)"
    and log': "proc_log p' = proc_log p2 @
            concat (map (\<lambda>i. [ReplaceUsesWithNewLiteral (node_id (state_params p2 ! i))
                                 (ZeroOfType (node_type (state_params p2 ! i))),
                               RemoveStateElementCall i]) zs)"
    by blast
  have same: "map (\<lambda>i. [ReplaceUsesWithNewLiteral (node_id (state_params p2 ! i))
                                 (ZeroOfType (node_type (state_params p2 ! i))),
                               RemoveStateElementCall i]) zs
            = map (\<lambda>i. [ReplaceUsesWithNewLiteral (node_id (state_params p ! i))
                                 (ZeroOfType (node_type (state_params p ! i))),
                               RemoveStateElementCall i]) zs"
  proof (rule map_cong[OF refl])
    fix y assume "y \<in> set zs"
    then have "y < z" using lt by simp
    then have "state_params p2 ! y = state_params p ! y"
      unfolding sp2 using z by (simp add: remove_nth_nth_lt)
    then show "[ReplaceUsesWithNewLiteral (node_id (state_params p2 ! y))
                                 (ZeroOfType (node_type (state_params p2 ! y))),
                               RemoveStateElementCall y]
             = [ReplaceUsesWithNewLiteral (node_id (state_params p ! y))
                                 (ZeroOfType (node_type (state_params p ! y))),
                               RemoveStateElementCall y]" by simp
  qed
  have run: "remove_zero_width_loop (z # zs) p = Inr p'"
    using p1 p2 r by (simp add: GetStateParam_def GetStateElementType_def)
  have sp: "state_params p' = remove_indices (z # zs) (state_params p)"
    using sp' sp2 by (simp add: remove_indices_def)
  have lg: "proc_log p' = proc_log p @
            concat (map (\<lambda>i. [ReplaceUsesWithNewLiteral (node_id (state_params p ! i))
                                 (ZeroOfType (node_type (state_params p ! i))),
                               RemoveStateElementCall i]) (z # zs))"
    using log' log2 log1 same by simp
  show ?case using run sp lg by blast
qed

lemma zero_width_indices_props:
  "sorted_wrt (>) (zero_width_indices p)
   \<and> set (zero_width_indices p)
       = {i. i < length (state_params p) \<and> GetFlatBitCount (node_type (state_params p ! i)) = 0}"
proof
  show "sorted_wrt (>) (zero_width_indices p)"
    unfolding zero_width_indices_def by (rule sorted_wrt_filter_gt[OF down_from_sorted])
  show "set (zero_width_indices p)
       = {i. i < length (state_params p) \<and> GetFlatBitCount (node_type (state_params p ! i)) = 0}"
    by (simp add: zero_width_indices_def down_from_set GetStateElementCount_def
        GetStateElementType_def GetStateParam_def Collect_conj_eq lessThan_def)
qed

lemma RemoveZeroWidthStateElements_total:
  "\<exists>p1. RemoveZeroWidthStateElements p = Inr (zero_width_indices p \<noteq> [], p1)"
proof -
  let ?zs = "zero_width_indices p"
  have b: "\<forall>z \<in> set ?zs. z < length (state_params p)"
    using zero_width_indices_props[of p] by auto
  have s: "sorted_wrt (>) ?zs" using zero_width_indices_props[of p] by blast
  from remove_zero_width_loop_ok[OF b s] obtain p' where
    r: "remove_zero_width_loop ?zs p = Inr p'" by blast
  show ?thesis
  proof (cases "?zs = []")
    case True
    then show ?thesis by (simp add: RemoveZeroWidthStateElements_def)
  next
    case False
    then show ?thesis using r by (simp add: RemoveZeroWidthStateElements_def)
  qed
qed

lemma RemoveZeroWidthStateElements_Inr:
  assumes "RemoveZeroWidthStateElements p = Inr (c1, p1)"
  shows "state_params p1 = filter (\<lambda>n. GetFlatBitCount (node_type n) \<noteq> 0) (state_params p)"
    and "proc_log p1 = proc_log p @
            concat (map (\<lambda>i. [ReplaceUsesWithNewLiteral (node_id (state_params p ! i))
                                 (ZeroOfType (node_type (state_params p ! i))),
                               RemoveStateElementCall i]) (zero_width_indices p))"
proof -
  let ?zs = "zero_width_indices p"
  have b: "\<forall>z \<in> set ?zs. z < length (state_params p)"
    using zero_width_indices_props[of p] by auto
  have s: "sorted_wrt (>) ?zs" using zero_width_indices_props[of p] by blast
  from remove_zero_width_loop_ok[OF b s] obtain p' where
    r: "remove_zero_width_loop ?zs p = Inr p'"
    and sp: "state_params p' = remove_indices ?zs (state_params p)"
    and lg: "proc_log p' = proc_log p @
            concat (map (\<lambda>i. [ReplaceUsesWithNewLiteral (node_id (state_params p ! i))
                                 (ZeroOfType (node_type (state_params p ! i))),
                               RemoveStateElementCall i]) ?zs)"
    by blast
  have flt: "remove_indices ?zs (state_params p)
             = filter (\<lambda>n. GetFlatBitCount (node_type n) \<noteq> 0) (state_params p)"
    using remove_indices_filter[of "\<lambda>n. GetFlatBitCount (node_type n) = 0" "state_params p"]
    by (simp add: zero_width_indices_def GetStateElementCount_def GetStateElementType_def
        GetStateParam_def)
  have p1: "p1 = p'"
  proof (cases "?zs = []")
    case True
    then have "remove_zero_width_loop ?zs p = Inr p" by simp
    with r have "p' = p" by simp
    moreover have "p1 = p" using assms True by (simp add: RemoveZeroWidthStateElements_def)
    ultimately show ?thesis by simp
  next
    case False
    then show ?thesis using assms r by (simp add: RemoveZeroWidthStateElements_def)
  qed
  show "state_params p1 = filter (\<lambda>n. GetFlatBitCount (node_type n) \<noteq> 0) (state_params p)"
    unfolding p1 using sp flt by simp
  show "proc_log p1 = proc_log p @
            concat (map (\<lambda>i. [ReplaceUsesWithNewLiteral (node_id (state_params p ! i))
                                 (ZeroOfType (node_type (state_params p ! i))),
                               RemoveStateElementCall i]) (zero_width_indices p))"
    unfolding p1 using lg .
qed

text \<open>The unobservable step keeps a sublist of the state parameters.\<close>

lemma replace_dead_loop_Inr:
  "replace_dead_loop zs p = Inr p' \<Longrightarrow> state_params p' = state_params p"
proof (induction zs arbitrary: p)
  case Nil
  then show ?case by simp
next
  case (Cons z zs)
  show ?case
  proof (cases "IsDead p (GetStateParam p z)")
    case True
    with Cons.prems have "replace_dead_loop zs p = Inr p'" by (simp add: Let_def)
    from Cons.IH[OF this] show ?thesis .
  next
    case False
    with Cons.prems obtain p1 where
      p1: "ReplaceUsesWithNew_Literal p (GetStateParam p z) (ZeroOfType (node_type (GetStateParam p z))) = Inr p1"
      and r: "replace_dead_loop zs p1 = Inr p'"
      by (auto simp: Let_def split: sum.splits)
    from Cons.IH[OF r] ReplaceUsesWithNew_Literal_Inr[OF p1] show ?thesis by simp
  qed
qed

lemma remove_loop_Inr:
  "remove_loop zs p = Inr p' \<Longrightarrow> state_params p' = remove_indices zs (state_params p)"
proof (induction zs arbitrary: p)
  case Nil
  then show ?case by (simp add: remove_indices_def)
next
  case (Cons z zs)
  from Cons.prems obtain p1 where p1: "RemoveStateElement p z = Inr p1"
    and r: "remove_loop zs p1 = Inr p'"
    by (auto split: sum.splits)
  from Cons.IH[OF r] RemoveStateElement_Inr[OF p1] show ?case
    by (simp add: remove_indices_def)
qed

lemma RemoveUnobservableStateElements_Inr:
  assumes "RemoveUnobservableStateElements p = Inr (c, p')"
  obtains to_remove where "ObservabilityAnalysis p = Inr to_remove"
    and "state_params p' = remove_indices to_remove (state_params p)"
proof -
  from assms obtain to_remove where oa: "ObservabilityAnalysis p = Inr to_remove"
    unfolding RemoveUnobservableStateElements_def by (auto split: sum.splits)
  have "state_params p' = remove_indices to_remove (state_params p)"
  proof (cases "to_remove = []")
    case True
    with assms oa show ?thesis
      by (simp add: RemoveUnobservableStateElements_def remove_indices_def)
  next
    case False
    with assms oa obtain p1 where a: "replace_dead_loop to_remove p = Inr p1"
      and b: "remove_loop to_remove p1 = Inr p'"
      unfolding RemoveUnobservableStateElements_def by (auto split: sum.splits)
    from remove_loop_Inr[OF b] replace_dead_loop_Inr[OF a] show ?thesis by simp
  qed
  with oa that show ?thesis by blast
qed

lemma RunOnProcInternal_Inr:
  assumes "RunOnProcInternal p = Inr (changed, p')"
  obtains c1 p1 c2 where "RemoveZeroWidthStateElements p = Inr (c1, p1)"
    and "RemoveUnobservableStateElements p1 = Inr (c2, p')" and "changed = (c1 \<or> c2)"
proof (cases "RemoveZeroWidthStateElements p")
  case (Inl e)
  with assms show ?thesis by (simp add: RunOnProcInternal_def)
next
  case (Inr r)
  obtain c1 p1 where r: "r = (c1, p1)" by (cases r)
  show ?thesis
  proof (cases "RemoveUnobservableStateElements p1")
    case (Inl e)
    with assms Inr r show ?thesis by (simp add: RunOnProcInternal_def)
  next
    case (Inr r2)
    obtain c2 p2 where r2: "r2 = (c2, p2)" by (cases r2)
    from assms \<open>RemoveZeroWidthStateElements p = Inr r\<close> r Inr r2
    have "changed = (c1 \<or> c2)" "p' = p2" by (simp_all add: RunOnProcInternal_def)
    with that \<open>RemoveZeroWidthStateElements p = Inr r\<close> r Inr r2 show ?thesis by simp
  qed
qed

lemma unused_Replace:
  assumes r: "ReplaceUsesWithNew_Literal p n v = Inr p1"
    and u: "unused p ids" and fresh: "next_node_id p \<notin> ids" "next_node_id p \<noteq> node_id n"
  shows "unused p1 (insert (node_id n) ids)"
proof -
  let ?new = "next_node_id p"
  let ?f = "replace_id (node_id n) ?new"
  from r have ty: "TypeOfValue v = node_type n"
    by (auto simp: ReplaceUsesWithNew_Literal_def split: if_splits)
  have nodes: "proc_nodes p1 =
      map (\<lambda>u. u\<lparr>operands := map ?f (operands u)\<rparr>) (proc_nodes p) @
        [\<lparr>node_id = ?new, node_name = ''literal.'' @ DecimalDigits ?new,
          node_op = kLiteral, operands = [], node_type = TypeOfValue v,
          channel = Inl (Status kInvalidArgument ''not a channel node''),
          literal_value = Some v\<rparr>]"
    and ns: "next_state p1 = map ?f (next_state p)"
    and nt: "next_token p1 = ?f (next_token p)"
    using r ty by (auto simp: ReplaceUsesWithNew_Literal_def Let_def)
  have f: "?f x \<notin> insert (node_id n) ids" if "x \<notin> ids" for x
    using that fresh by (simp add: replace_id_def)
  have a: "\<forall>m \<in> set (proc_nodes p1). set (operands m) \<inter> insert (node_id n) ids = {}"
  proof
    fix m assume "m \<in> set (proc_nodes p1)"
    then consider u' where "u' \<in> set (proc_nodes p)" "operands m = map ?f (operands u')"
      | "operands m = []"
      unfolding nodes by auto
    then show "set (operands m) \<inter> insert (node_id n) ids = {}"
    proof cases
      case 1
      have "\<forall>x \<in> set (operands u'). x \<notin> ids" using u 1(1) by (auto simp: unused_def)
      then have "\<forall>y \<in> set (map ?f (operands u')). y \<notin> insert (node_id n) ids"
        using f by auto
      then show ?thesis unfolding 1(2) by blast
    next
      case 2
      then show ?thesis by simp
    qed
  qed
  have "\<forall>x \<in> set (next_state p). x \<notin> ids" using u by (auto simp: unused_def)
  then have "\<forall>y \<in> set (map ?f (next_state p)). y \<notin> insert (node_id n) ids"
    using f by auto
  then have b: "set (next_state p1) \<inter> insert (node_id n) ids = {}"
    unfolding ns by blast
  have "next_token p \<notin> ids" using u by (simp add: unused_def)
  then have c: "next_token p1 \<notin> insert (node_id n) ids"
    unfolding nt by (rule f)
  show ?thesis unfolding unused_def using a b c by (intro conjI)
qed

lemma unused_Remove:
  assumes r: "RemoveStateElement p i = Inr p2" and u: "unused p ids"
  shows "unused p2 ids"
proof -
  from r have nodes: "set (proc_nodes p2) \<subseteq> set (proc_nodes p)"
    and ns: "next_state p2 = remove_nth i (next_state p)"
    and nt: "next_token p2 = next_token p"
    by (auto simp: RemoveStateElement_def split: if_splits)
  have "set (next_state p2) \<subseteq> set (next_state p)"
    unfolding ns by (rule remove_nth_subset)
  then show ?thesis using u nodes nt unfolding unused_def by auto
qed

lemma ReplaceUsesWithNew_Literal_next_id:
  "ReplaceUsesWithNew_Literal p n v = Inr p1 \<Longrightarrow> next_node_id p1 = Suc (next_node_id p)"
  by (auto simp: ReplaceUsesWithNew_Literal_def Let_def split: if_splits)

lemma RemoveStateElement_next_id:
  "RemoveStateElement p i = Inr p2 \<Longrightarrow> next_node_id p2 = next_node_id p"
  by (auto simp: RemoveStateElement_def split: if_splits)

lemma remove_zero_width_loop_unused:
  assumes "remove_zero_width_loop zs p = Inr p'"
    and "sorted_wrt (>) zs"
    and "\<forall>z \<in> set zs. z < length (state_params p)"
    and "unused p ids"
    and "\<forall>x \<in> ids. x < next_node_id p"
    and "\<forall>n \<in> set (state_params p). node_id n < next_node_id p"
  shows "unused p' (ids \<union> (\<lambda>z. node_id (state_params p ! z)) ` set zs)"
  using assms
proof (induction zs arbitrary: p ids)
  case Nil
  then show ?case by simp
next
  case (Cons z zs)
  let ?n = "state_params p ! z"
  have z: "z < length (state_params p)" using Cons.prems(3) by simp
  have idz: "node_id ?n < next_node_id p" using Cons.prems(6) z by simp
  obtain p1 where p1: "ReplaceUsesWithNew_Literal p ?n (ZeroOfType (node_type ?n)) = Inr p1"
    and sp1: "state_params p1 = state_params p"
    using ReplaceUsesWithNew_Literal_zero[of p ?n] by blast
  obtain p2 where p2: "RemoveStateElement p1 z = Inr p2"
    and sp2: "state_params p2 = remove_nth z (state_params p)"
    using RemoveStateElement_ok[of z p1] z sp1 by auto
  have r: "remove_zero_width_loop zs p2 = Inr p'"
    using Cons.prems(1) p1 p2 by (simp add: GetStateParam_def GetStateElementType_def)
  have fresh: "next_node_id p \<notin> ids" "next_node_id p \<noteq> node_id ?n"
    using Cons.prems(5) idz by auto
  have u1: "unused p1 (insert (node_id ?n) ids)"
    by (rule unused_Replace[OF p1 Cons.prems(4) fresh])
  have u2: "unused p2 (insert (node_id ?n) ids)"
    by (rule unused_Remove[OF p2 u1])
  have nid: "next_node_id p2 = Suc (next_node_id p)"
    using ReplaceUsesWithNew_Literal_next_id[OF p1] RemoveStateElement_next_id[OF p2] by simp
  have lt: "\<forall>y \<in> set zs. y < z" using Cons.prems(2) by auto
  have len: "length (state_params p2) = length (state_params p) - 1"
    using sp2 z by (simp add: remove_nth_length)
  have b: "\<forall>y \<in> set zs. y < length (state_params p2)"
  proof
    fix y assume "y \<in> set zs"
    then have "y < z" using lt by simp
    then show "y < length (state_params p2)" using z len by simp
  qed
  have s: "sorted_wrt (>) zs" using Cons.prems(2) by simp
  have i2: "\<forall>x \<in> insert (node_id ?n) ids. x < next_node_id p2"
    unfolding nid using Cons.prems(5) idz by auto
  have "set (state_params p2) \<subseteq> set (state_params p)"
    unfolding sp2 by (rule remove_nth_subset)
  then have s2: "\<forall>n \<in> set (state_params p2). node_id n < next_node_id p2"
    unfolding nid using Cons.prems(6) by (auto simp: less_Suc_eq)
  have ih: "unused p' (insert (node_id ?n) ids \<union> (\<lambda>z. node_id (state_params p2 ! z)) ` set zs)"
    by (rule Cons.IH[OF r s b u2 i2 s2])
  have same: "(\<lambda>z. node_id (state_params p2 ! z)) ` set zs
            = (\<lambda>z. node_id (state_params p ! z)) ` set zs"
  proof (rule image_cong[OF refl])
    fix y assume "y \<in> set zs"
    then have "y < z" using lt by simp
    then show "node_id (state_params p2 ! y) = node_id (state_params p ! y)"
      unfolding sp2 using z by (simp add: remove_nth_nth_lt)
  qed
  have "insert (node_id ?n) ids \<union> (\<lambda>z. node_id (state_params p ! z)) ` set zs
        = ids \<union> (\<lambda>z. node_id (state_params p ! z)) ` set (z # zs)"
    by auto
  then show ?case using ih unfolding same by simp
qed

lemma RemoveZeroWidthStateElements_unused:
  assumes zw: "RemoveZeroWidthStateElements p = Inr (c1, p1)"
    and ids: "\<forall>n \<in> set (state_params p). node_id n < next_node_id p"
  shows "unused p1 ((\<lambda>z. node_id (state_params p ! z)) ` set (zero_width_indices p))"
proof (cases "zero_width_indices p = []")
  case True
  then show ?thesis by (simp add: unused_def)
next
  case False
  let ?zs = "zero_width_indices p"
  have b: "\<forall>z \<in> set ?zs. z < length (state_params p)"
    using zero_width_indices_props[of p] by auto
  have s: "sorted_wrt (>) ?zs" using zero_width_indices_props[of p] by blast
  have r: "remove_zero_width_loop ?zs p = Inr p1"
    using zw False by (simp add: RemoveZeroWidthStateElements_def split: sum.splits)
  have u0: "unused p {}" by (simp add: unused_def)
  have "unused p1 ({} \<union> (\<lambda>z. node_id (state_params p ! z)) ` set ?zs)"
    by (rule remove_zero_width_loop_unused[OF r s b u0 _ ids]) simp
  then show ?thesis by simp
qed

subsection \<open>The union-find merges along links\<close>

lemma uf_sound_init:
  assumes "\<And>i. conn i i"
  shows "uf_sound n conn (fold (\<lambda>i uf. UnionFind_Insert uf i) [0..<n] [])"
proof -
  have "fold (\<lambda>i uf. UnionFind_Insert uf i) xs acc = acc @ xs" for xs acc
    by (induction xs arbitrary: acc) (simp_all add: UnionFind_Insert_def)
  then have "fold (\<lambda>i uf. UnionFind_Insert uf i) [0..<n] [] = [0..<n]" by simp
  then show ?thesis using assms by (simp add: uf_sound_def)
qed

lemma uf_sound_Union:
  assumes s: "uf_sound n conn uf" and a: "a < n" and b: "b < n" and ab: "conn a b"
    and sym: "\<And>x y. conn x y \<Longrightarrow> conn y x"
    and trans: "\<And>x y z. conn x y \<Longrightarrow> conn y z \<Longrightarrow> conn x z"
  shows "uf_sound n conn (UnionFind_Union uf a b)"
proof -
  have len: "length uf = n" using s by (simp add: uf_sound_def)
  have eq: "\<And>i j. i < n \<Longrightarrow> j < n \<Longrightarrow> uf ! i = uf ! j \<Longrightarrow> conn i j"
    using s by (simp add: uf_sound_def)
  let ?f = "\<lambda>r. if r = uf ! a then uf ! b else r"
  have nth: "UnionFind_Union uf a b ! i = ?f (uf ! i)" if "i < n" for i
    using that len by (simp add: UnionFind_Union_def)
  have "conn i j" if i: "i < n" and j: "j < n"
    and e: "UnionFind_Union uf a b ! i = UnionFind_Union uf a b ! j" for i j
  proof -
    from e have e': "?f (uf ! i) = ?f (uf ! j)" using nth[OF i] nth[OF j] by simp
    show ?thesis
    proof (cases "uf ! i = uf ! a")
      case True
      have ia: "conn i a" using eq[OF i a True] .
      show ?thesis
      proof (cases "uf ! j = uf ! a")
        case True
        then have "conn j a" using eq[OF j a] by simp
        then show ?thesis using ia sym trans by blast
      next
        case False
        with e' \<open>uf ! i = uf ! a\<close> have "uf ! b = uf ! j" by simp
        then have "conn b j" using eq[OF b j] by simp
        then show ?thesis using ia ab trans by blast
      qed
    next
      case False
      show ?thesis
      proof (cases "uf ! j = uf ! a")
        case True
        have ja: "conn j a" using eq[OF j a True] .
        from e' False True have "uf ! i = uf ! b" by simp
        then have "conn i b" using eq[OF i b] by simp
        then show ?thesis using ja ab sym trans by blast
      next
        case False
        with e' \<open>uf ! i \<noteq> uf ! a\<close> have "uf ! i = uf ! j" by simp
        then show ?thesis using eq[OF i j] by simp
      qed
    qed
  qed
  moreover have "length (UnionFind_Union uf a b) = n" using len by (simp add: UnionFind_Union_def)
  ultimately show ?thesis by (simp add: uf_sound_def)
qed


lemma merged_refl: "merged p sd x x"
  by (simp add: merged_def)

lemma merged_trans: "merged p sd x y \<Longrightarrow> merged p sd y z \<Longrightarrow> merged p sd x z"
  unfolding merged_def by (rule rtranclp_trans)

lemma merged_sym: "merged p sd x y \<Longrightarrow> merged p sd y x"
  unfolding merged_def
proof (induction rule: rtranclp_induct)
  case base
  then show ?case by simp
next
  case (step y z)
  have "linked p sd z y \<or> (z < GetStateElementCount p \<and> side_effect_depends_on p sd z
           \<and> y < GetStateElementCount p \<and> side_effect_depends_on p sd y)"
    using step.hyps(2) by (auto simp: linked_def)
  then show ?case using step.IH by (rule converse_rtranclp_into_rtranclp)
qed

lemma merged_seed:
  "x < GetStateElementCount p \<Longrightarrow> side_effect_depends_on p sd x \<Longrightarrow>
   y < GetStateElementCount p \<Longrightarrow> side_effect_depends_on p sd y \<Longrightarrow> merged p sd x y"
  unfolding merged_def by (rule r_into_rtranclp) simp

lemma merged_next_state: "next_state_depends_on p sd k i \<Longrightarrow> merged p sd i k"
  unfolding merged_def by (rule r_into_rtranclp) (simp add: linked_def)

lemma merged_Union:
  "uf_sound n (merged p sd) uf \<Longrightarrow> a < n \<Longrightarrow> b < n \<Longrightarrow> merged p sd a b \<Longrightarrow>
     uf_sound n (merged p sd) (UnionFind_Union uf a b)"
  by (rule uf_sound_Union) (auto intro: merged_sym merged_trans)

lemma side_effect_loop_inv:
  assumes "merge_inv p sd (uf, obs)"
    and "\<forall>i \<in> set xs. i < GetStateElementCount p \<and> (Bitmap_Get deps i \<longrightarrow> side_effect_depends_on p sd i)"
  shows "merge_inv p sd (side_effect_loop deps xs (uf, obs))"
  using assms
proof (induction xs arbitrary: uf obs)
  case Nil
  then show ?case by simp
next
  case (Cons i xs)
  have rest: "\<forall>i \<in> set xs. i < GetStateElementCount p \<and> (Bitmap_Get deps i \<longrightarrow> side_effect_depends_on p sd i)"
    using Cons.prems(2) by simp
  have i: "i < GetStateElementCount p" using Cons.prems(2) by simp
  show ?case
  proof (cases "Bitmap_Get deps i")
    case False
    then show ?thesis using Cons.IH[OF Cons.prems(1) rest] by simp
  next
    case True
    then have seed: "side_effect_depends_on p sd i" using Cons.prems(2) by simp
    show ?thesis
    proof (cases obs)
      case None
      have "merge_inv p sd (uf, Some i)"
        using Cons.prems(1) i seed by (simp add: merge_inv_def)
      from Cons.IH[OF this rest] show ?thesis using True None by simp
    next
      case (Some o')
      have o: "o' < GetStateElementCount p" "side_effect_depends_on p sd o'"
        using Cons.prems(1) Some by (simp_all add: merge_inv_def)
      have "uf_sound (GetStateElementCount p) (merged p sd) (UnionFind_Union uf i o')"
        using Cons.prems(1) i o merged_seed[OF i seed o]
        by (intro merged_Union) (simp_all add: merge_inv_def)
      then have "merge_inv p sd (UnionFind_Union uf i o', Some o')"
        using o by (simp add: merge_inv_def)
      from Cons.IH[OF this rest] show ?thesis using True Some by simp
    qed
  qed
qed

lemma next_state_inner_loop_inv:
  assumes "uf_sound (GetStateElementCount p) (merged p sd) uf"
    and "k < GetStateElementCount p"
    and "\<forall>i \<in> set xs. i < GetStateElementCount p \<and> (Bitmap_Get deps i \<longrightarrow> next_state_depends_on p sd k i)"
  shows "uf_sound (GetStateElementCount p) (merged p sd) (next_state_inner_loop deps k xs uf)"
  using assms
proof (induction xs arbitrary: uf)
  case Nil
  then show ?case by simp
next
  case (Cons i xs)
  have rest: "\<forall>i \<in> set xs. i < GetStateElementCount p \<and> (Bitmap_Get deps i \<longrightarrow> next_state_depends_on p sd k i)"
    using Cons.prems(3) by simp
  have i: "i < GetStateElementCount p" using Cons.prems(3) by simp
  show ?case
  proof (cases "Bitmap_Get deps i")
    case False
    then show ?thesis using Cons.IH[OF Cons.prems(1) Cons.prems(2) rest] by simp
  next
    case True
    then have "next_state_depends_on p sd k i" using Cons.prems(3) by simp
    then have "merged p sd i k" by (rule merged_next_state)
    then have "uf_sound (GetStateElementCount p) (merged p sd) (UnionFind_Union uf i k)"
      using Cons.prems(1) i Cons.prems(2) by (intro merged_Union)
    from Cons.IH[OF this Cons.prems(2) rest] show ?thesis using True by simp
  qed
qed

lemma next_state_loop_inv:
  assumes "uf_sound (GetStateElementCount p) (merged p sd) uf"
    and "\<forall>k \<in> set ks. k < GetStateElementCount p
           \<and> (\<forall>i < GetStateElementCount p. Bitmap_Get deps i \<longrightarrow> next_state_depends_on p sd k i)"
  shows "uf_sound (GetStateElementCount p) (merged p sd)
           (next_state_loop deps (GetStateElementCount p) ks uf)"
  using assms
proof (induction ks arbitrary: uf)
  case Nil
  then show ?case by simp
next
  case (Cons k ks)
  have k: "k < GetStateElementCount p" using Cons.prems(2) by simp
  have inner: "\<forall>i \<in> set [0..<GetStateElementCount p]. i < GetStateElementCount p
        \<and> (Bitmap_Get deps i \<longrightarrow> next_state_depends_on p sd k i)"
    using Cons.prems(2) by simp
  have rest: "\<forall>k \<in> set ks. k < GetStateElementCount p
           \<and> (\<forall>i < GetStateElementCount p. Bitmap_Get deps i \<longrightarrow> next_state_depends_on p sd k i)"
    using Cons.prems(2) by simp
  from Cons.IH[OF next_state_inner_loop_inv[OF Cons.prems(1) k inner] rest]
  show ?case by simp
qed

lemma merge_loop_inv:
  assumes "merge_loop p sd ns st = Some st'" and "merge_inv p sd st"
    and "set ns \<subseteq> set (proc_nodes p)"
  shows "merge_inv p sd st'"
  using assms
proof (induction ns arbitrary: st)
  case Nil
  then show ?case by simp
next
  case (Cons node ns)
  obtain uf obs where st: "st = (uf, obs)" by (cases st)
  from Cons.prems(1) st obtain deps where deps: "sd (node_id node) = Some deps"
    by (auto split: option.splits)
  have node: "node \<in> set (proc_nodes p)" using Cons.prems(3) by simp
  have contains: "bitmap_contains sd node i = Bitmap_Get deps i" for i
    by (simp add: bitmap_contains_def deps)
  let ?st1 = "if OpIsSideEffecting (node_op node) \<and> node_op node \<noteq> kParam then
                side_effect_loop deps [0..<GetStateElementCount p] (uf, obs)
              else (uf, obs)"
  let ?st2 = "if next_state_indices p (node_id node) \<noteq> [] then
                (next_state_loop deps (GetStateElementCount p)
                   (next_state_indices p (node_id node)) (fst ?st1), snd ?st1)
              else ?st1"
  have step: "merge_loop p sd ns ?st2 = Some st'"
    using Cons.prems(1) st deps by (simp add: Let_def)
  have inv0: "merge_inv p sd (uf, obs)" using Cons.prems(2) st by simp
  have inv1: "merge_inv p sd ?st1"
  proof (cases "OpIsSideEffecting (node_op node) \<and> node_op node \<noteq> kParam")
    case False
    then have "?st1 = (uf, obs)" by (rule if_not_P)
    then show ?thesis using inv0 by simp
  next
    case True
    have "\<forall>i \<in> set [0..<GetStateElementCount p]. i < GetStateElementCount p
            \<and> (Bitmap_Get deps i \<longrightarrow> side_effect_depends_on p sd i)"
    proof
      fix i assume "i \<in> set [0..<GetStateElementCount p]"
      then have "i < GetStateElementCount p" by simp
      moreover have "side_effect_depends_on p sd i" if "Bitmap_Get deps i"
        unfolding side_effect_depends_on_def list_ex_iff
        using node True that contains by blast
      ultimately show "i < GetStateElementCount p
            \<and> (Bitmap_Get deps i \<longrightarrow> side_effect_depends_on p sd i)" by simp
    qed
    from side_effect_loop_inv[OF inv0 this] have
      "merge_inv p sd (side_effect_loop deps [0..<GetStateElementCount p] (uf, obs))" .
    moreover have "?st1 = side_effect_loop deps [0..<GetStateElementCount p] (uf, obs)"
      using True by (rule if_P)
    ultimately show ?thesis by simp
  qed
  have inv2: "merge_inv p sd ?st2"
  proof (cases "next_state_indices p (node_id node) \<noteq> []")
    case False
    then show ?thesis using inv1 by simp
  next
    case True
    have ks: "\<forall>k \<in> set (next_state_indices p (node_id node)). k < GetStateElementCount p
           \<and> (\<forall>i < GetStateElementCount p. Bitmap_Get deps i \<longrightarrow> next_state_depends_on p sd k i)"
    proof
      fix k assume "k \<in> set (next_state_indices p (node_id node))"
      then have k: "k < GetStateElementCount p" "GetNextStateElement p k = node_id node"
        by (simp_all add: next_state_indices_def)
      have "next_state_depends_on p sd k i" if "i < GetStateElementCount p" "Bitmap_Get deps i" for i
        unfolding next_state_depends_on_def list_ex_iff
        using node k that contains by (intro conjI bexI[of _ node]) simp_all
      then show "k < GetStateElementCount p
           \<and> (\<forall>i < GetStateElementCount p. Bitmap_Get deps i \<longrightarrow> next_state_depends_on p sd k i)"
        using k by simp
    qed
    have "uf_sound (GetStateElementCount p) (merged p sd) (fst ?st1)"
      using inv1 unfolding merge_inv_def by (rule conjunct1)
    from next_state_loop_inv[OF this ks]
    have "uf_sound (GetStateElementCount p) (merged p sd)
           (next_state_loop deps (GetStateElementCount p) (next_state_indices p (node_id node)) (fst ?st1))" .
    moreover have "\<forall>obs'. snd ?st1 = Some obs' \<longrightarrow> obs' < GetStateElementCount p \<and> side_effect_depends_on p sd obs'"
      using inv1 unfolding merge_inv_def by (rule conjunct2)
    ultimately show ?thesis using True by (simp add: merge_inv_def)
  qed
  have sub: "set ns \<subseteq> set (proc_nodes p)" using Cons.prems(3) by simp
  from Cons.IH[OF step inv2 sub] show ?case .
qed

lemma merged_to_linked:
  assumes "merged p sd s i" and "side_effect_depends_on p sd s" and "s < GetStateElementCount p"
  shows "linked_to_observed p sd i"
  using assms(1) unfolding merged_def
proof (induction rule: rtranclp_induct)
  case base
  show ?case unfolding linked_to_observed_def using assms(2,3) by blast
next
  case (step y z)
  from step.IH obtain s' where s': "s' < GetStateElementCount p" "side_effect_depends_on p sd s'"
    "(linked p sd)\<^sup>*\<^sup>* s' y" unfolding linked_to_observed_def by blast
  from step.hyps(2) show ?case
  proof
    assume "linked p sd y z"
    with s'(3) have "(linked p sd)\<^sup>*\<^sup>* s' z" by (rule rtranclp.rtrancl_into_rtrancl)
    then show ?thesis unfolding linked_to_observed_def using s'(1,2) by blast
  next
    assume a: "y < GetStateElementCount p \<and> side_effect_depends_on p sd y
           \<and> z < GetStateElementCount p \<and> side_effect_depends_on p sd z"
    have "(linked p sd)\<^sup>*\<^sup>* z z" by simp
    then show ?thesis unfolding linked_to_observed_def using a by blast
  qed
qed


lemma ObservabilityAnalysis_Inr:
  assumes "ObservabilityAnalysis p = Inr to_remove"
  obtains sd uf obs where "ComputeStateDependencies p = Inr sd"
    and "merge_loop p sd (proc_nodes p)
           (fold (\<lambda>i uf. UnionFind_Insert uf i) [0..<GetStateElementCount p] [], None) = Some (uf, obs)"
    and "to_remove = unobservable_indices p uf (map_option (UnionFind_Find uf) obs)"
proof (cases "ComputeStateDependencies p")
  case (Inl e)
  with assms show ?thesis by (simp add: ObservabilityAnalysis_def)
next
  case (Inr sd)
  show ?thesis
  proof (cases "merge_loop p sd (proc_nodes p)
           (fold (\<lambda>i uf. UnionFind_Insert uf i) [0..<GetStateElementCount p] [], None)")
    case None
    with assms Inr show ?thesis by (simp add: ObservabilityAnalysis_def)
  next
    case (Some st)
    obtain uf obs where st: "st = (uf, obs)" by (cases st)
    from assms Inr Some st
    have "to_remove = unobservable_indices p uf (map_option (UnionFind_Find uf) obs)"
      by (simp add: ObservabilityAnalysis_def)
    with that Inr Some st show ?thesis by simp
  qed
qed

lemma retained_linked:
  assumes oa: "ObservabilityAnalysis p = Inr to_remove"
    and sd: "ComputeStateDependencies p = Inr sd"
    and i: "i < GetStateElementCount p" and keep: "i \<notin> set to_remove"
  shows "linked_to_observed p sd i"
proof -
  obtain sd' uf obs where sd': "ComputeStateDependencies p = Inr sd'"
    and ml: "merge_loop p sd' (proc_nodes p)
           (fold (\<lambda>i uf. UnionFind_Insert uf i) [0..<GetStateElementCount p] [], None) = Some (uf, obs)"
    and tr: "to_remove = unobservable_indices p uf (map_option (UnionFind_Find uf) obs)"
    by (rule ObservabilityAnalysis_Inr[OF oa])
  have same: "sd' = sd" using sd sd' by simp
  have init: "merge_inv p sd
        (fold (\<lambda>i uf. UnionFind_Insert uf i) [0..<GetStateElementCount p] [], None)"
    unfolding merge_inv_def using uf_sound_init[of "merged p sd" "GetStateElementCount p"] merged_refl
    by simp
  have inv: "merge_inv p sd (uf, obs)"
    using merge_loop_inv[OF ml[unfolded same] init] by simp
  have "i \<in> set (down_from (GetStateElementCount p))" using i by (simp add: down_from_set)
  with keep tr have nr: "\<not> (map_option (UnionFind_Find uf) obs = None
         \<or> UnionFind_Find uf i \<noteq> the (map_option (UnionFind_Find uf) obs))"
    by (simp add: unobservable_indices_def)
  then obtain o' where o': "obs = Some o'" by (cases obs) simp_all
  from nr o' have eq: "uf ! i = uf ! o'" by (simp add: UnionFind_Find_def)
  have ob: "o' < GetStateElementCount p" "side_effect_depends_on p sd o'"
    using inv o' by (simp_all add: merge_inv_def)
  have "merged p sd i o'"
    using inv i ob(1) eq by (simp add: merge_inv_def uf_sound_def)
  then have "merged p sd o' i" by (rule merged_sym)
  then show ?thesis using ob(2) ob(1) by (rule merged_to_linked)
qed


lemma remove_indices_filter_index:
  "remove_indices (filter Q (down_from (length xs))) xs
     = map (\<lambda>i. xs ! i) (filter (\<lambda>i. \<not> Q i) [0..<length xs])"
proof (induction xs rule: rev_induct)
  case Nil
  then show ?case by (simp add: remove_indices_def)
next
  case (snoc y ys)
  let ?n = "length ys"
  let ?zs = "filter Q (down_from ?n)"
  have b: "\<forall>z \<in> set ?zs. z < length ys" by (simp add: down_from_set)
  have s: "sorted_wrt (>) ?zs" by (rule sorted_wrt_filter_gt[OF down_from_sorted])
  have m: "map (\<lambda>i. (ys @ [y]) ! i) (filter (\<lambda>i. \<not> Q i) [0..<?n])
           = map (\<lambda>i. ys ! i) (filter (\<lambda>i. \<not> Q i) [0..<?n])"
    by (rule map_cong[OF refl]) (simp add: nth_append)
  show ?case
  proof (cases "Q ?n")
    case True
    have "remove_nth ?n (ys @ [y]) = ys" by (simp add: remove_nth_def)
    then show ?thesis using True snoc.IH m by (simp add: remove_indices_def)
  next
    case False
    have "remove_indices ?zs (ys @ [y]) = remove_indices ?zs ys @ [y]"
      using remove_indices_append_left[OF b s] by (rule conjunct1)
    then show ?thesis using False snoc.IH m by simp
  qed
qed

lemma unobservable_indices_retained:
  "remove_indices (unobservable_indices p uf obs) (state_params p)
     = map (\<lambda>i. state_params p ! i) (retained_indices p (unobservable_indices p uf obs))"
proof -
  let ?Q = "\<lambda>i. obs = None \<or> UnionFind_Find uf i \<noteq> the obs"
  have u: "unobservable_indices p uf obs = filter ?Q (down_from (length (state_params p)))"
    by (simp add: unobservable_indices_def GetStateElementCount_def)
  have "filter (\<lambda>i. i \<notin> set (filter ?Q (down_from (length (state_params p))))) [0..<length (state_params p)]
        = filter (\<lambda>i. \<not> ?Q i) [0..<length (state_params p)]"
    by (rule filter_cong[OF refl]) (simp add: down_from_set)
  then show ?thesis
    unfolding u retained_indices_def GetStateElementCount_def
    using remove_indices_filter_index[of ?Q "state_params p"] by simp
qed

subsection \<open>The example procs\<close>

lemma ex_zw_run:
  "case RunOnProcInternal example_zero_width of
     Inl e \<Rightarrow> False
   | Inr (c, p') \<Rightarrow> c \<and> map node_name (state_params p') = [''b'']"
  by code_simp

lemma ex_three_run: "RunOnProcInternal example_three_states = Inr (False, example_three_states)"
  by code_simp

lemma ex_three_deps:
  "case ComputeStateDependencies example_three_states of
     Inl e \<Rightarrow> False
   | Inr sd \<Rightarrow>
       side_effect_depends_on example_three_states sd 0
     \<and> \<not> side_effect_depends_on example_three_states sd 1
     \<and> \<not> side_effect_depends_on example_three_states sd 2
     \<and> next_state_depends_on example_three_states sd 0 0
     \<and> \<not> next_state_depends_on example_three_states sd 0 1
     \<and> \<not> next_state_depends_on example_three_states sd 0 2
     \<and> \<not> next_state_depends_on example_three_states sd 1 0
     \<and> next_state_depends_on example_three_states sd 1 1
     \<and> \<not> next_state_depends_on example_three_states sd 1 2
     \<and> next_state_depends_on example_three_states sd 2 0
     \<and> next_state_depends_on example_three_states sd 2 1
     \<and> \<not> next_state_depends_on example_three_states sd 2 2"
  by code_simp

subsection \<open>Zero-width state elements\<close>

text \<open>
  Claim C6. When the pass returns, every remaining state element has a flat bit count
  above 0. The zero-width step never fails; it keeps exactly the state parameters of
  non-zero width, in their order; its calls on the proc are, for each zero-width index in
  turn, the replacement of the uses of that parameter by the zero literal of its type and
  then the removal of the state element; once ids are allocated from the counter of the
  proc, no node, next-state value or next token refers to a removed parameter afterwards.
  The indices are taken in strictly descending order, and they are all the indices of
  zero-width elements.
\<close>

theorem zero_width_removed:
  assumes run: "RunOnProcInternal p = Inr (changed, p')"
  shows "(\<forall>param \<in> set (state_params p'). 0 < GetFlatBitCount (node_type param))
       \<and> (\<exists>c1 p1. RemoveZeroWidthStateElements p = Inr (c1, p1)
            \<and> state_params p1 = filter (\<lambda>n. GetFlatBitCount (node_type n) \<noteq> 0) (state_params p)
            \<and> proc_log p1 = proc_log p @
                concat (map (\<lambda>i. [ReplaceUsesWithNewLiteral (node_id (state_params p ! i))
                                     (ZeroOfType (node_type (state_params p ! i))),
                                   RemoveStateElementCall i]) (zero_width_indices p))
            \<and> ((\<forall>n \<in> set (state_params p). node_id n < next_node_id p) \<longrightarrow>
                 unused p1 ((\<lambda>i. node_id (state_params p ! i)) ` set (zero_width_indices p))))
       \<and> sorted_wrt (>) (zero_width_indices p)
       \<and> set (zero_width_indices p)
           = {i. i < length (state_params p) \<and> GetFlatBitCount (node_type (state_params p ! i)) = 0}"
proof -
  obtain c1 p1 c2 where
    zw: "RemoveZeroWidthStateElements p = Inr (c1, p1)"
    and uo: "RemoveUnobservableStateElements p1 = Inr (c2, p')"
    by (rule RunOnProcInternal_Inr[OF run])
  note sp1 = RemoveZeroWidthStateElements_Inr(1)[OF zw]
  note lg = RemoveZeroWidthStateElements_Inr(2)[OF zw]
  obtain to_remove where
    sp': "state_params p' = remove_indices to_remove (state_params p1)"
    by (rule RemoveUnobservableStateElements_Inr[OF uo])
  have sub: "set (state_params p') \<subseteq> set (state_params p1)"
    unfolding sp' by (rule remove_indices_subset)
  have a: "\<forall>param \<in> set (state_params p'). 0 < GetFlatBitCount (node_type param)"
  proof
    fix param assume "param \<in> set (state_params p')"
    then have "param \<in> set (state_params p1)" using sub by (rule subsetD[rotated])
    then have "param \<in> set (filter (\<lambda>n. GetFlatBitCount (node_type n) \<noteq> 0) (state_params p))"
      unfolding sp1 .
    then show "0 < GetFlatBitCount (node_type param)" by simp
  qed
  have un: "(\<forall>n \<in> set (state_params p). node_id n < next_node_id p) \<longrightarrow>
              unused p1 ((\<lambda>i. node_id (state_params p ! i)) ` set (zero_width_indices p))"
    by (rule impI) (rule RemoveZeroWidthStateElements_unused[OF zw])
  have b: "\<exists>c1 p1. RemoveZeroWidthStateElements p = Inr (c1, p1)
            \<and> state_params p1 = filter (\<lambda>n. GetFlatBitCount (node_type n) \<noteq> 0) (state_params p)
            \<and> proc_log p1 = proc_log p @
                concat (map (\<lambda>i. [ReplaceUsesWithNewLiteral (node_id (state_params p ! i))
                                     (ZeroOfType (node_type (state_params p ! i))),
                                   RemoveStateElementCall i]) (zero_width_indices p))
            \<and> ((\<forall>n \<in> set (state_params p). node_id n < next_node_id p) \<longrightarrow>
                 unused p1 ((\<lambda>i. node_id (state_params p ! i)) ` set (zero_width_indices p)))"
    by (rule exI[of _ c1], rule exI[of _ p1], rule conjI[OF zw conjI[OF sp1 conjI[OF lg un]]])
  have c: "sorted_wrt (>) (zero_width_indices p)"
    using zero_width_indices_props[of p] by (rule conjunct1)
  have d: "set (zero_width_indices p)
           = {i. i < length (state_params p) \<and> GetFlatBitCount (node_type (state_params p ! i)) = 0}"
    using zero_width_indices_props[of p] by (rule conjunct2)
  show ?thesis
    by (rule conjI[OF a conjI[OF b conjI[OF c d]]])
qed

theorem zero_width_removed_witness:
  "\<exists>changed p' c1 p1.
     RunOnProcInternal example_zero_width = Inr (changed, p')
   \<and> map node_name (state_params p') = [''b'']
   \<and> list_all (\<lambda>param. 0 < GetFlatBitCount (node_type param)) (state_params p')
   \<and> zero_width_indices example_zero_width = [0]
   \<and> RemoveZeroWidthStateElements example_zero_width = Inr (c1, p1)
   \<and> map node_name (state_params p1) = [''b'', ''y'']
   \<and> proc_log p1 = [ReplaceUsesWithNewLiteral 2 (BitsValue 0 0), RemoveStateElementCall 0]
   \<and> unused p1 {2}"
proof -
  obtain changed p' where run: "RunOnProcInternal example_zero_width = Inr (changed, p')"
    and names: "map node_name (state_params p') = [''b'']"
    using ex_zw_run by (cases "RunOnProcInternal example_zero_width") auto
  note zwr = zero_width_removed[OF run]
  have "\<forall>param \<in> set (state_params p'). 0 < GetFlatBitCount (node_type param)"
    using zwr by (rule conjunct1)
  then have a: "list_all (\<lambda>param. 0 < GetFlatBitCount (node_type param)) (state_params p')"
    by (simp add: list_all_iff)
  have z: "zero_width_indices example_zero_width = [0]"
    by code_simp
  have ids: "\<forall>n \<in> set (state_params example_zero_width).
               node_id n < next_node_id example_zero_width"
    by (simp add: example_zero_width_def example_node_def)
  have sp: "state_params example_zero_width
            = [example_node 2 ''a'' kParam [] (BitsType 0),
               example_node 3 ''b'' kParam [] (BitsType 8),
               example_node 4 ''y'' kParam [] (BitsType 8)]"
    and lg0: "proc_log example_zero_width = []"
    by (simp_all add: example_zero_width_def)
  from zwr obtain c1 p1 where
    zw: "RemoveZeroWidthStateElements example_zero_width = Inr (c1, p1)"
    and sp1: "state_params p1
              = filter (\<lambda>n. GetFlatBitCount (node_type n) \<noteq> 0) (state_params example_zero_width)"
    and lg: "proc_log p1 = proc_log example_zero_width @
                concat (map (\<lambda>i. [ReplaceUsesWithNewLiteral
                                     (node_id (state_params example_zero_width ! i))
                                     (ZeroOfType (node_type (state_params example_zero_width ! i))),
                                   RemoveStateElementCall i]) (zero_width_indices example_zero_width))"
    and un: "(\<forall>n \<in> set (state_params example_zero_width).
                node_id n < next_node_id example_zero_width) \<longrightarrow>
             unused p1 ((\<lambda>i. node_id (state_params example_zero_width ! i))
                          ` set (zero_width_indices example_zero_width))"
    by (elim exE conjE)
  have n1: "map node_name (state_params p1) = [''b'', ''y'']"
    unfolding sp1 sp by (simp add: example_node_def)
  have l1: "proc_log p1 = [ReplaceUsesWithNewLiteral 2 (BitsValue 0 0), RemoveStateElementCall 0]"
    unfolding lg z lg0 sp by (simp add: example_node_def)
  have "unused p1 ((\<lambda>i. node_id (state_params example_zero_width ! i))
                          ` set (zero_width_indices example_zero_width))"
    using un ids by (rule mp)
  then have u1: "unused p1 {2}"
    unfolding z sp by (simp add: example_node_def)
  show ?thesis
    by (rule exI[of _ changed], rule exI[of _ p'], rule exI[of _ c1], rule exI[of _ p1],
        rule conjI[OF run conjI[OF names conjI[OF a conjI[OF z conjI[OF zw conjI[OF n1
          conjI[OF l1 u1]]]]]]])
qed

subsection \<open>Unobservable state elements\<close>

text \<open>
  What the pass retains. The elements it keeps are those of the class of the union-find
  that holds an element a side-effecting node depends on: each of them is linked to such an
  element by a chain of state elements in which, of every two neighbours, the next-state
  value of one depends on the other. The indices and bitmaps are those of the proc after
  the zero-width step.
\<close>

lemma retained_state_linked_to_observed:
  assumes run: "RunOnProcInternal p = Inr (changed, p')"
  shows "\<exists>c1 p1 sd to_remove.
           RemoveZeroWidthStateElements p = Inr (c1, p1)
         \<and> ComputeStateDependencies p1 = Inr sd
         \<and> ObservabilityAnalysis p1 = Inr to_remove
         \<and> state_params p' = map (\<lambda>i. state_params p1 ! i) (retained_indices p1 to_remove)
         \<and> (\<forall>i \<in> set (retained_indices p1 to_remove). linked_to_observed p1 sd i)"
proof -
  obtain c1 p1 c2 where
    zw: "RemoveZeroWidthStateElements p = Inr (c1, p1)"
    and uo: "RemoveUnobservableStateElements p1 = Inr (c2, p')"
    by (rule RunOnProcInternal_Inr[OF run])
  obtain to_remove where oa: "ObservabilityAnalysis p1 = Inr to_remove"
    and sp': "state_params p' = remove_indices to_remove (state_params p1)"
    by (rule RemoveUnobservableStateElements_Inr[OF uo])
  obtain sd uf obs where sd: "ComputeStateDependencies p1 = Inr sd"
    and tr: "to_remove = unobservable_indices p1 uf (map_option (UnionFind_Find uf) obs)"
    by (rule ObservabilityAnalysis_Inr[OF oa])
  have sp: "state_params p' = map (\<lambda>i. state_params p1 ! i) (retained_indices p1 to_remove)"
    unfolding sp' tr by (rule unobservable_indices_retained)
  have lk: "\<forall>i \<in> set (retained_indices p1 to_remove). linked_to_observed p1 sd i"
  proof
    fix i assume "i \<in> set (retained_indices p1 to_remove)"
    then have "i < GetStateElementCount p1" "i \<notin> set to_remove"
      by (simp_all add: retained_indices_def)
    then show "linked_to_observed p1 sd i" by (rule retained_linked[OF oa sd])
  qed
  show ?thesis
    by (rule exI[of _ c1], rule exI[of _ p1], rule exI[of _ sd], rule exI[of _ to_remove],
        rule conjI[OF zw conjI[OF sd conjI[OF oa conjI[OF sp lk]]]])
qed

text \<open>
  Claim C1 fails on the code. In \<open>example_three_states\<close> the send depends on \<open>x\<close> alone,
  the next-state value of \<open>x\<close> depends on \<open>x\<close> alone, and nothing depends on \<open>z\<close>: of the
  three state elements only \<open>x\<close> (index 0) is observable, \<open>y\<close> (index 1) and \<open>z\<close> (index 2)
  are not. The pass changes nothing and retains all three: the next-state value of \<open>z\<close>,
  \<open>x + y\<close>, joins \<open>x\<close>, \<open>y\<close> and \<open>z\<close> into one class of the union-find, which is not the
  set of the observable elements.
\<close>

theorem retained_state_not_observable:
  "RunOnProcInternal example_three_states = Inr (False, example_three_states)
   \<and> map node_name (state_params example_three_states) = [''x'', ''y'', ''z'']
   \<and> ComputeStateDependencies example_three_states
       = Inr (StateDependencies example_three_states)
   \<and> observable example_three_states (StateDependencies example_three_states) 0
   \<and> \<not> observable example_three_states (StateDependencies example_three_states) 1
   \<and> \<not> observable example_three_states (StateDependencies example_three_states) 2"
proof -
  let ?P = "example_three_states"
  obtain sd where sd: "ComputeStateDependencies ?P = Inr sd"
    using ex_three_deps by (cases "ComputeStateDependencies ?P") auto
  have sdo: "StateDependencies ?P = sd" by (simp add: StateDependencies_def sd)
  have n: "GetStateElementCount ?P = 3"
    by (simp add: GetStateElementCount_def example_three_states_def)
  have facts: "side_effect_depends_on ?P sd 0"
     "\<not> side_effect_depends_on ?P sd 1"
     "\<not> side_effect_depends_on ?P sd 2"
     "\<not> next_state_depends_on ?P sd 0 1"
     "\<not> next_state_depends_on ?P sd 0 2"
    using ex_three_deps unfolding sd by simp_all
  have three: "i = 0 \<or> i = 1 \<or> i = 2" if "i < (3::nat)" for i
    using that by linarith
  have seed0: "s = 0" if "s < 3" "side_effect_depends_on ?P sd s" for s
    using three[OF that(1)] that(2) facts(2,3) by auto
  have bound: "i < 3" if "next_state_depends_on ?P sd k i" for k i
    using that n by (simp add: next_state_depends_on_def)
  have fwd: "i = 0" if "(next_state_depends_on ?P sd)\<^sup>*\<^sup>* s i" "s = 0" for s i
    using that
  proof (induction rule: rtranclp_induct)
    case base
    then show ?case by simp
  next
    case (step y z)
    then have y: "y = 0" by simp
    from three[OF bound[OF step.hyps(2)]] step.hyps(2) y facts(4,5)
    show ?case by auto
  qed
  have only: "i = 0" if "observable ?P sd i" for i
  proof -
    from that obtain s where s: "s < 3" "side_effect_depends_on ?P sd s"
      "(next_state_depends_on ?P sd)\<^sup>*\<^sup>* s i"
      unfolding observable_def n by (elim exE conjE)
    from fwd[OF s(3) seed0[OF s(1,2)]] show ?thesis .
  qed
  have a: "observable ?P sd 0"
    unfolding observable_def n using facts(1) by (intro exI[of _ 0]) simp
  have b: "\<not> observable ?P sd 1" using only[of 1] by auto
  have c: "\<not> observable ?P sd 2" using only[of 2] by auto
  have names: "map node_name (state_params ?P) = [''x'', ''y'', ''z'']"
    by (simp add: example_three_states_def example_node_def)
  show ?thesis
    using ex_three_run names sd a b c unfolding sdo by simp
qed


end
